theory Spec2Isabelle
  imports Complex_Main "HOL-Library.Sublist"
begin

section \<open>Numbers and errors\<close>

text \<open>
  The package \<open>polynomial\<close> computes with Go's \<open>float64\<close> and \<open>complex128\<close>.
  They are modelled by the real and the complex numbers: every operation is the exact one,
  so rounding, overflow to an infinity, NaN and the sign of zero are outside the model.
  Go's \<open>int\<close> is taken at 64 bits and modelled by \<open>int\<close>, with the range checks and
  the wrap-around written where the code meets them.
\<close>

type_synonym float64 = real
type_synonym complex128 = complex

text \<open>
  The package reports every failure with \<open>fmt.Errorf\<close>; there are no error types, only
  messages. Each constructor below is one message of the source. The last two are the
  run-time panics the parser can reach (they are not returned errors).
\<close>

datatype error =
    InvalidFormat                \<comment> \<open>invalid polynomial format\<close>
  | UnmatchedText string         \<comment> \<open>invalid polynomial format: extra/unmatched text in %q\<close>
  | InvalidTerm string           \<comment> \<open>invalid term: %s\<close>
  | InvalidDegree string         \<comment> \<open>invalid degree in term: %s\<close>
  | InvalidCoefficient string    \<comment> \<open>invalid coefficient in term: %s\<close>
  | InvalidConstant string       \<comment> \<open>invalid constant term: %s\<close>
  | NoCoefficients               \<comment> \<open>no coefficients provided\<close>
  | InvalidLinear                \<comment> \<open>invalid linear polynomial (coefficient of x cannot be zero)\<close>
  | InvalidQuadratic             \<comment> \<open>invalid quadratic polynomial (coefficient of x^2 cannot be zero)\<close>
  | OnlyLinearQuadratic          \<comment> \<open>factorization is only supported for linear and quadratic polynomials\<close>
  | ComplexRoots                 \<comment> \<open>cannot factorize polynomial with complex roots\<close>
  | UnsupportedDegree            \<comment> \<open>unsupported polynomial degree\<close>
  | NoPoints                     \<comment> \<open>no points provided\<close>
  | SolveFailed string           \<comment> \<open>failed to solve interpolation: %v\<close>
  | PanicMakeslice               \<comment> \<open>panic: makeslice: len out of range\<close>
  | PanicIndex                   \<comment> \<open>panic: index out of range\<close>

text \<open>
  The specification names six kinds of error. \<open>kind\<close> files each message of the source
  under the kind the specification gives it; a panic is none of them.
\<close>

datatype error_kind =
    FormatError | EmptyInputError | DegenerateCoefficientError | ComplexRootError
  | UnsupportedDegreeError | SingularSystemError | RuntimePanic

fun kind :: "error \<Rightarrow> error_kind" where
  "kind InvalidFormat = FormatError"
| "kind (UnmatchedText s) = FormatError"
| "kind (InvalidTerm s) = FormatError"
| "kind (InvalidDegree s) = FormatError"
| "kind (InvalidCoefficient s) = FormatError"
| "kind (InvalidConstant s) = FormatError"
| "kind NoCoefficients = EmptyInputError"
| "kind InvalidLinear = DegenerateCoefficientError"
| "kind InvalidQuadratic = DegenerateCoefficientError"
| "kind OnlyLinearQuadratic = UnsupportedDegreeError"
| "kind ComplexRoots = ComplexRootError"
| "kind UnsupportedDegree = UnsupportedDegreeError"
| "kind NoPoints = EmptyInputError"
| "kind (SolveFailed s) = SingularSystemError"
| "kind PanicMakeslice = RuntimePanic"
| "kind PanicIndex = RuntimePanic"

section \<open>Strings\<close>

text \<open>
  A Go string is a sequence of bytes, here a \<open>string\<close>. The decimal digits are the ten
  characters of the class \<open>\d\<close> and of \<open>strconv\<close>.
\<close>

definition isDigit :: "char \<Rightarrow> bool" where
  "isDigit c = (c \<in> set ''0123456789'')"

text \<open>The value of a decimal digit, and of a string of digits.\<close>

definition digit_val :: "char \<Rightarrow> nat" where
  "digit_val c = (if isDigit c then length (takeWhile (\<lambda>d. d \<noteq> c) ''0123456789'') else 0)"

definition nat_of_digits :: "string \<Rightarrow> nat" where
  "nat_of_digits ds = foldl (\<lambda>n c. 10 * n + digit_val c) 0 ds"

subsection \<open>Package \<open>strings\<close>\<close>

text \<open>\<open>strings.ReplaceAll(s, old, new)\<close> for an \<open>old\<close> of one character.\<close>

definition ReplaceAll :: "string \<Rightarrow> char \<Rightarrow> string \<Rightarrow> string" where
  "ReplaceAll s old new = concat (map (\<lambda>c. if c = old then new else [c]) s)"

text \<open>\<open>strings.Join(elems, "")\<close>\<close>

definition Join :: "string list \<Rightarrow> string" where
  "Join elems = concat elems"

text \<open>\<open>strings.Index(s, substr)\<close>: where \<open>substr\<close> first occurs in \<open>s\<close>, if it does.\<close>

fun Index :: "string \<Rightarrow> string \<Rightarrow> nat option" where
  "Index [] substr = (if substr = [] then Some 0 else None)"
| "Index (c # s) substr =
     (if prefix substr (c # s) then Some 0 else map_option Suc (Index s substr))"

text \<open>\<open>strings.Contains(s, substr)\<close>\<close>

definition Contains :: "string \<Rightarrow> string \<Rightarrow> bool" where
  "Contains s substr = (Index s substr \<noteq> None)"

text \<open>
  \<open>strings.Split(s, sep)\<close> for a separator that is not empty (the package splits at
  \<open>"^"\<close> and at \<open>"x^"\<close> only): the pieces of \<open>s\<close> between the occurrences of \<open>sep\<close>, found
  from the left, one after the other.
\<close>

function Split :: "string \<Rightarrow> string \<Rightarrow> string list" where
  "Split s sep =
     (if sep = [] then map (\<lambda>c. [c]) s
      else case Index s sep of
             None \<Rightarrow> [s]
           | Some m \<Rightarrow> take m s # Split (drop (m + length sep) s) sep)"
  by pat_completeness auto

lemma Index_bound: "Index s substr = Some m \<Longrightarrow> m + length substr \<le> length s"
proof (induction s arbitrary: m)
  case Nil
  then show ?case by (simp split: if_splits)
next
  case (Cons c s)
  show ?case
  proof (cases "prefix substr (c # s)")
    case True
    then show ?thesis using Cons.prems prefix_length_le [of substr "c # s"] by simp
  next
    case False
    then obtain m' where "Index s substr = Some m'" and "m = Suc m'"
      using Cons.prems by auto
    then show ?thesis using Cons.IH by simp
  qed
qed

termination Split
proof (relation "measure (\<lambda>(s, sep). length s)")
  show "wf (measure (\<lambda>(s, sep). length s))" by simp
next
  fix s sep :: string and m
  assume "sep \<noteq> []" and "Index s sep = Some m"
  then have "m + length sep \<le> length s" and "0 < length sep"
    using Index_bound by simp_all
  then have "length s - (m + length sep) < length s"
    by arith
  then show "((drop (m + length sep) s, sep), (s, sep)) \<in> measure (\<lambda>(s, sep). length s)"
    by simp
qed

declare Split.simps [simp del]

text \<open>\<open>strings.TrimSuffix(s, suffix)\<close>\<close>

definition TrimSuffix :: "string \<Rightarrow> string \<Rightarrow> string" where
  "TrimSuffix s sfx = (if suffix sfx s then take (length s - length sfx) s else s)"

subsection \<open>Package \<open>strconv\<close>\<close>

text \<open>
  An optional sign in front of a number: whether it is a minus, and the rest.
\<close>

definition split_sign :: "string \<Rightarrow> bool \<times> string" where
  "split_sign s =
     (case s of
        [] \<Rightarrow> (False, s)
      | c # rest \<Rightarrow>
          if c = CHR ''+'' then (False, rest)
          else if c = CHR ''-'' then (True, rest)
          else (False, s))"

text \<open>
  \<open>strconv.Atoi\<close>: an optional sign and at least one digit, nothing else; the value has
  to fit the 64 bits of \<open>int\<close>. A syntax error and a range error are both \<open>None\<close>.
\<close>

definition Atoi :: "string \<Rightarrow> int option" where
  "Atoi s =
     (let (neg, ds) = split_sign s in
      if ds = [] \<or> \<not> list_all isDigit ds then None
      else
        let v = (if neg then - int (nat_of_digits ds) else int (nat_of_digits ds)) in
        if v < - (2 ^ 63) \<or> v > 2 ^ 63 - 1 then None else Some v)"

text \<open>
  The number a decimal numeral denotes: an optional sign, digits, and optionally a point
  and more digits.
\<close>

definition decimal_value :: "string \<Rightarrow> real" where
  "decimal_value s =
     (let (neg, r) = split_sign s;
          int_part = takeWhile isDigit r;
          r1 = dropWhile isDigit r;
          r2 = (case r1 of [] \<Rightarrow> r1 | c # t \<Rightarrow> if c = CHR ''.'' then t else r1);
          frac = takeWhile isDigit r2;
          v = real (nat_of_digits (int_part @ frac)) / 10 ^ length frac
      in if neg then - v else v)"

text \<open>
  Whether a string is such a numeral: nothing is left after the digits, and there is at
  least one digit.
\<close>

definition decimal_syntax :: "string \<Rightarrow> bool" where
  "decimal_syntax s =
     (let (neg, r) = split_sign s;
          int_part = takeWhile isDigit r;
          r1 = dropWhile isDigit r;
          r2 = (case r1 of [] \<Rightarrow> r1 | c # t \<Rightarrow> if c = CHR ''.'' then t else r1);
          frac = takeWhile isDigit r2;
          r3 = dropWhile isDigit r2
      in r3 = [] \<and> (int_part \<noteq> [] \<or> frac \<noteq> []))"

text \<open>
  \<open>strconv.ParseFloat(s, 64)\<close> on the strings the parser passes, which hold signs, digits,
  points and the letter \<open>x\<close> only: on these the library accepts the decimal numerals
  and nothing else (the other forms it knows, with an exponent, in base 16, with
  underscores, \<open>Inf\<close> and \<open>NaN\<close>, need other characters). It returns the nearest
  \<open>float64\<close>, here the number itself, and a range error when the number is half a unit
  in the last place or more beyond the largest \<open>float64\<close>.
\<close>

definition ParseFloat :: "string \<Rightarrow> float64 option" where
  "ParseFloat s =
     (if \<not> decimal_syntax s then None
      else if \<bar>decimal_value s\<bar> \<ge> 2 ^ 1024 - 2 ^ 970 then None
      else Some (decimal_value s))"

section \<open>The root solver\<close>

subsection \<open>Library functions of \<open>math/cmplx\<close>\<close>

text \<open>\<open>cmplx.Rect(r, \<theta>)\<close>: the complex number with these polar coordinates.\<close>

definition cmplx_Rect :: "float64 \<Rightarrow> float64 \<Rightarrow> complex128" where
  "cmplx_Rect r \<theta> = Complex (r * cos \<theta>) (r * sin \<theta>)"

text \<open>\<open>cmplx.Abs\<close> is the modulus.\<close>

definition cmplx_Abs :: "complex128 \<Rightarrow> float64" where
  "cmplx_Abs x = cmod x"

text \<open>
  \<open>cmplx.Pow(x, y)\<close>, at the only exponents the package passes:
  \<open>y = complex(float64(i), 0)\<close> for an index \<open>i \<ge> 0\<close>. The library returns 1 for
  \<open>Pow(0, 0)\<close>, 0 for \<open>Pow(0, y)\<close> with a positive real part, and otherwise goes through
  the polar form: modulus \<open>|x|\<^sup>i\<close> and angle \<open>i \<sqdot> Phase(x)\<close>.
\<close>

definition cmplx_Pow :: "complex128 \<Rightarrow> nat \<Rightarrow> complex128" where
  "cmplx_Pow x i =
     (if x = 0 then (if i = 0 then 1 else 0)
      else
        let modulus = cmod x in
        if modulus = 0 then 0
        else
          let r = modulus powr (real i);
              theta = real i * Arg x
          in Complex (r * cos theta) (r * sin theta))"

subsection \<open>\<open>evaluatePolynomial\<close>\<close>

text \<open>
  The loop \<open>for i, coeff := range coefficients\<close> adds
  \<open>complex(coeff, 0) * cmplx.Pow(x, complex(float64(i), 0))\<close> to \<open>result\<close>; the loop
  state is the index and the running sum.
\<close>

fun evaluatePolynomial_loop :: "float64 list \<Rightarrow> complex128 \<Rightarrow> nat \<Rightarrow> complex128 \<Rightarrow> complex128" where
  "evaluatePolynomial_loop [] x i result = result"
| "evaluatePolynomial_loop (coeff # rest) x i result =
     evaluatePolynomial_loop rest x (i + 1) (result + Complex coeff 0 * cmplx_Pow x i)"

definition evaluatePolynomial :: "float64 list \<Rightarrow> complex128 \<Rightarrow> complex128" where
  "evaluatePolynomial coefficients x = evaluatePolynomial_loop coefficients x 0 (Complex 0 0)"

subsection \<open>\<open>findRootsDurandKerner\<close>\<close>

text \<open>
  The initial guesses: \<open>roots := make([]complex128, n)\<close>, then
  \<open>roots[i] = cmplx.Rect(1, 2*math.Pi*float64(i)/float64(n))\<close> for every index.
\<close>

definition initial_guesses :: "nat \<Rightarrow> complex128 list" where
  "initial_guesses n =
     fold (\<lambda>i roots. roots[i := cmplx_Rect 1 (2 * pi * real i / real n)])
       [0..<n] (replicate n 0)"

text \<open>
  The inner loop over \<open>j\<close>: \<open>denominator\<close> starts at \<open>complex(1, 0)\<close> and is multiplied
  by \<open>roots[i] - roots[j]\<close> for every \<open>j\<close> other than \<open>i\<close>.
\<close>

definition dk_denominator :: "complex128 list \<Rightarrow> nat \<Rightarrow> complex128" where
  "dk_denominator roots i =
     fold (\<lambda>j denominator. if i \<noteq> j then denominator * (roots ! i - roots ! j) else denominator)
       [0..<length roots] (Complex 1 0)"

text \<open>
  One round: \<open>updated := make([]complex128, n)\<close> is filled index by index, every entry
  from the slice \<open>roots\<close>, which the round does not write.
\<close>

definition dk_round :: "float64 list \<Rightarrow> complex128 list \<Rightarrow> complex128 list" where
  "dk_round coefficients roots =
     fold (\<lambda>i updated.
             let numerator = evaluatePolynomial coefficients (roots ! i);
                 denominator = dk_denominator roots i
             in updated[i := roots ! i - numerator / denominator])
       [0..<length roots] (replicate (length roots) 0)"

text \<open>
  The convergence check: \<open>converged\<close> stays true unless some index has
  \<open>cmplx.Abs(updated[i]-roots[i]) > 1e-10\<close>.
\<close>

definition dk_converged :: "complex128 list \<Rightarrow> complex128 list \<Rightarrow> bool" where
  "dk_converged roots updated =
     list_all (\<lambda>i. \<not> cmplx_Abs (updated ! i - roots ! i) > 1 / 10 ^ 10) [0..<length roots]"

text \<open>
  The loop \<open>for iter := 0; iter < 1000; iter++\<close>. Its state is \<open>iter\<close> and \<open>roots\<close>;
  the model returns the roots the loop leaves and, beside them, the number of rounds it
  has computed (\<open>iter + 1\<close> at a \<open>break\<close>, 1000 when the bound ends the loop).
\<close>

function dk_loop :: "float64 list \<Rightarrow> nat \<Rightarrow> complex128 list \<Rightarrow> nat \<times> complex128 list" where
  "dk_loop coefficients iter roots =
     (if iter < 1000 then
        let updated = dk_round coefficients roots in
        if dk_converged roots updated then (iter + 1, roots)
        else dk_loop coefficients (iter + 1) updated
      else (iter, roots))"
  by pat_completeness auto
termination
  by (relation "measure (\<lambda>(coefficients, iter, roots). 1000 - iter)") auto

declare dk_loop.simps [simp del]

definition findRootsDurandKerner :: "float64 list \<Rightarrow> complex128 list" where
  "findRootsDurandKerner coefficients =
     (let n = int (length coefficients) - 1 in
      if n < 1 then []
      else snd (dk_loop coefficients 0 (initial_guesses (nat n))))"

text \<open>The number of rounds \<open>findRootsDurandKerner\<close> computes on an input.\<close>

definition dk_rounds :: "float64 list \<Rightarrow> nat" where
  "dk_rounds coefficients =
     (let n = int (length coefficients) - 1 in
      if n < 1 then 0
      else fst (dk_loop coefficients 0 (initial_guesses (nat n))))"

subsection \<open>\<open>FindRoots\<close>\<close>

definition FindRoots :: "float64 list \<Rightarrow> error + complex128 list" where
  "FindRoots coefficients =
     (if length coefficients = 0 then Inl NoCoefficients
      else if length coefficients = 2 then
        (let c0 = coefficients ! 0;
             c1 = coefficients ! 1
         in if c1 = 0 then Inl InvalidLinear
            else let root = Complex (- c0 / c1) 0 in Inr [root])
      else if length coefficients = 3 then
        (let c0 = coefficients ! 0;
             c1 = coefficients ! 1;
             c2 = coefficients ! 2
         in if c2 = 0 then Inl InvalidQuadratic
            else
              let discriminant = c1 * c1 - 4 * c2 * c0 in
              if discriminant < 0 then
                let realPart = - c1 / (2 * c2);
                    imagPart = sqrt (- discriminant) / (2 * c2)
                in Inr [Complex realPart imagPart, Complex realPart (- imagPart)]
              else
                let sqrtDisc = sqrt discriminant;
                    root1 = (- c1 + sqrtDisc) / (2 * c2);
                    root2 = (- c1 - sqrtDisc) / (2 * c2)
                in Inr [Complex root1 0, Complex root2 0])
      else Inr (findRootsDurandKerner coefficients))"

section \<open>The factorizer\<close>

subsection \<open>\<open>fmt.Sprintf\<close> with the verb \<open>%.2f\<close>\<close>

text \<open>The decimal digits of a natural number.\<close>

fun decimal :: "nat \<Rightarrow> string" where
  "decimal n = (if n < 10 then [''0123456789'' ! n] else decimal (n div 10) @ [''0123456789'' ! (n mod 10)])"

declare decimal.simps [simp del]

text \<open>Rounding a non-negative number to the nearest integer, a tie to the even one.\<close>

definition round_half_even :: "real \<Rightarrow> nat" where
  "round_half_even a =
     (let f = nat \<lfloor>a\<rfloor>; d = a - real f in
      if d < 1 / 2 then f
      else if d > 1 / 2 then f + 1
      else if even f then f else f + 1)"

text \<open>
  \<open>%.2f\<close>: a minus sign for a negative number, the integer digits, a point, and exactly
  two digits after it, the number rounded to the nearest hundredth.
\<close>

definition format_2f :: "float64 \<Rightarrow> string" where
  "format_2f r =
     (let n = round_half_even (\<bar>r\<bar> * 100) in
      (if r < 0 then ''-'' else '''') @ decimal (n div 100) @ ''.'' @
      [''0123456789'' ! (n mod 100 div 10), ''0123456789'' ! (n mod 10)])"

text \<open>\<open>fmt.Sprintf("(x - %.2f)", r)\<close>\<close>

definition factor_string :: "float64 \<Rightarrow> string" where
  "factor_string r = ''(x - '' @ format_2f r @ '')''"

subsection \<open>\<open>Factorize\<close>\<close>

definition Factorize :: "float64 list \<Rightarrow> error + string list" where
  "Factorize coefficients =
     (if length coefficients = 0 then Inl NoCoefficients
      else if length coefficients > 3 then Inl OnlyLinearQuadratic
      else if length coefficients = 2 then
        (let c0 = coefficients ! 0;
             c1 = coefficients ! 1
         in if c1 = 0 then Inl InvalidLinear
            else let root = - c0 / c1 in Inr [factor_string root])
      else if length coefficients = 3 then
        (let c0 = coefficients ! 0;
             c1 = coefficients ! 1;
             c2 = coefficients ! 2
         in if c2 = 0 then Inl InvalidQuadratic
            else
              let discriminant = c1 * c1 - 4 * c2 * c0 in
              if discriminant < 0 then Inl ComplexRoots
              else
                let sqrtDisc = sqrt discriminant;
                    r1 = (- c1 + sqrtDisc) / (2 * c2);
                    r2 = (- c1 - sqrtDisc) / (2 * c2);
                    (r1, r2) = (if r1 > r2 then (r2, r1) else (r1, r2))
                in Inr [factor_string r1, factor_string r2])
      else Inl UnsupportedDegree)"

section \<open>The parser\<close>

subsection \<open>Package \<open>regexp\<close>\<close>

text \<open>
  The pattern of a term is an alternation of two sequences; each element of a sequence
  is a class of characters, taken once, at most once (\<open>?\<close>), any number of times (\<open>*\<close>)
  or at least once (\<open>+\<close>). A class is the string of its characters.
\<close>

datatype piece = One string | Opt string | Star string | Plus string

text \<open>
  Go's \<open>regexp\<close> returns the match a backtracking search finds first: at the leftmost
  position that has one, the first alternative that matches, every repetition as long
  as the rest of the pattern allows. The functions below list, for a pattern and a
  string, what is left of the string after each way to match a prefix of it, in the
  order the search tries them; the first of the list is Go's match.
\<close>

fun star :: "string \<Rightarrow> string \<Rightarrow> string list" where
  "star cls [] = [[]]"
| "star cls (c # s) = (if c \<in> set cls then star cls s @ [c # s] else [c # s])"

fun match_piece :: "piece \<Rightarrow> string \<Rightarrow> string list" where
  "match_piece (One cls) s =
     (case s of [] \<Rightarrow> [] | c # t \<Rightarrow> if c \<in> set cls then [t] else [])"
| "match_piece (Opt cls) s =
     (case s of [] \<Rightarrow> [s] | c # t \<Rightarrow> if c \<in> set cls then [t, s] else [s])"
| "match_piece (Star cls) s = star cls s"
| "match_piece (Plus cls) s =
     (case s of [] \<Rightarrow> [] | c # t \<Rightarrow> if c \<in> set cls then star cls t else [])"

fun match_seq :: "piece list \<Rightarrow> string \<Rightarrow> string list" where
  "match_seq [] s = [s]"
| "match_seq (p # ps) s = concat (map (match_seq ps) (match_piece p s))"

definition match_here :: "piece list list \<Rightarrow> string \<Rightarrow> string option" where
  "match_here re s =
     (case concat (map (\<lambda>ps. match_seq ps s) re) of [] \<Rightarrow> None | rest # _ \<Rightarrow> Some rest)"

text \<open>
  \<open>FindAllString(s, -1)\<close>: the successive matches, none overlapping another. Where the
  pattern does not match, the search moves on by one character; an empty match is
  dropped when it stands right after the match before it (the flag). The classes of the
  term pattern are ASCII, so moving on by a byte finds what moving on by a rune finds.
\<close>

function FindAllString :: "piece list list \<Rightarrow> bool \<Rightarrow> string \<Rightarrow> string list" where
  "FindAllString re after_match s =
     (case match_here re s of
        None \<Rightarrow> (case s of [] \<Rightarrow> [] | c # t \<Rightarrow> FindAllString re False t)
      | Some rest \<Rightarrow>
          if length rest < length s
          then take (length s - length rest) s # FindAllString re True rest
          else (if after_match then [] else [[]]) @
               (case s of [] \<Rightarrow> [] | c # t \<Rightarrow> FindAllString re False t))"
  by pat_completeness auto
termination
  by (relation "measure (\<lambda>(re, after_match, s). length s)") auto

declare FindAllString.simps [simp del]

text \<open>
  The pattern \<^verbatim>\<open>([+-]?\d*\.?\d*x\^?\d*|[-+]?\d*\.?\d+)\<close> of \<open>ParsePolynomial\<close>.
\<close>

definition termRegex :: "piece list list" where
  "termRegex =
     [[Opt ''+-'', Star ''0123456789'', Opt ''.'', Star ''0123456789'', One ''x'', Opt ''^'',
       Star ''0123456789''],
      [Opt ''-+'', Star ''0123456789'', Opt ''.'', Plus ''0123456789'']]"

subsection \<open>Slices\<close>

text \<open>
  \<open>make([]float64, n)\<close> panics when \<open>n\<close> is negative or the slice would be larger than
  the address space the run-time system manages (\<open>maxAlloc\<close>, \<open>2\<^sup>4\<^sup>8\<close> bytes on the
  64-bit platforms); otherwise the model has the memory.
\<close>

definition maxAlloc :: int where
  "maxAlloc = 2 ^ 48"

definition make_float64 :: "int \<Rightarrow> error + float64 list" where
  "make_float64 n =
     (if n < 0 \<or> n * 8 > maxAlloc then Inl PanicMakeslice else Inr (replicate (nat n) 0))"

text \<open>Addition of \<open>int\<close> wraps around at 64 bits.\<close>

definition int64_add :: "int \<Rightarrow> int \<Rightarrow> int" where
  "int64_add a b = (a + b + 2 ^ 63) mod 2 ^ 64 - 2 ^ 63"

subsection \<open>\<open>ParsePolynomial\<close>\<close>

text \<open>
  The first loop over the terms finds \<open>maxDegree\<close>; it returns at the first term whose
  exponent does not parse.
\<close>

fun maxDegree_loop :: "string list \<Rightarrow> int \<Rightarrow> error + int" where
  "maxDegree_loop [] maxDegree = Inr maxDegree"
| "maxDegree_loop (tm # terms) maxDegree =
     (if Contains tm ''x^'' then
        let parts = Split tm ''^'' in
        if length parts \<noteq> 2 then Inl (InvalidTerm tm)
        else case Atoi (parts ! 1) of
               None \<Rightarrow> Inl (InvalidDegree tm)
             | Some degree \<Rightarrow>
                 maxDegree_loop terms (if degree > maxDegree then degree else maxDegree)
      else if Contains tm ''x'' then
        maxDegree_loop terms (if maxDegree < 1 then 1 else maxDegree)
      else maxDegree_loop terms maxDegree)"

text \<open>
  \<open>coefficients[i] += coeff\<close>; an index outside the slice is a panic.
\<close>

definition add_at :: "float64 list \<Rightarrow> int \<Rightarrow> float64 \<Rightarrow> error + float64 list" where
  "add_at coefficients i coeff =
     (if 0 \<le> i \<and> i < int (length coefficients)
      then Inr (coefficients[nat i := coefficients ! nat i + coeff])
      else Inl PanicIndex)"

text \<open>The default for a variable with no number in front of it.\<close>

definition default_coeffStr :: "string \<Rightarrow> string" where
  "default_coeffStr coeffStr =
     (if coeffStr = [] \<or> coeffStr = ''+'' then ''1''
      else if coeffStr = ''-'' then ''-1''
      else coeffStr)"

text \<open>
  The second loop over the terms adds every coefficient into its slot; it returns at
  the first term that does not parse.
\<close>

fun coefficients_loop :: "string list \<Rightarrow> float64 list \<Rightarrow> error + float64 list" where
  "coefficients_loop [] coefficients = Inr coefficients"
| "coefficients_loop (tm # terms) coefficients =
     (if tm = [] then coefficients_loop terms coefficients
      else if Contains tm ''x^'' then
        let parts = Split tm ''x^'';
            coeffStr = default_coeffStr (parts ! 0)
        in case ParseFloat coeffStr of
             None \<Rightarrow> Inl (InvalidCoefficient tm)
           | Some coeff \<Rightarrow>
               if length parts < 2 then Inl PanicIndex
               else case Atoi (parts ! 1) of
                      None \<Rightarrow> Inl (InvalidDegree tm)
                    | Some degree \<Rightarrow>
                        (case add_at coefficients degree coeff of
                           Inl e \<Rightarrow> Inl e
                         | Inr coefficients' \<Rightarrow> coefficients_loop terms coefficients')
      else if Contains tm ''x'' then
        let coeffStr = default_coeffStr (TrimSuffix tm ''x'')
        in case ParseFloat coeffStr of
             None \<Rightarrow> Inl (InvalidCoefficient tm)
           | Some coeff \<Rightarrow>
               (case add_at coefficients 1 coeff of
                  Inl e \<Rightarrow> Inl e
                | Inr coefficients' \<Rightarrow> coefficients_loop terms coefficients')
      else
        case ParseFloat tm of
          None \<Rightarrow> Inl (InvalidConstant tm)
        | Some coeff \<Rightarrow>
            (case add_at coefficients 0 coeff of
               Inl e \<Rightarrow> Inl e
             | Inr coefficients' \<Rightarrow> coefficients_loop terms coefficients'))"

definition ParsePolynomial :: "string \<Rightarrow> error + float64 list" where
  "ParsePolynomial polyStr0 =
     (let polyStr = ReplaceAll polyStr0 CHR '' '' [];
          terms = FindAllString termRegex False polyStr
      in if length terms = 0 then Inl InvalidFormat
         else
           let parsed = Join terms in
           if parsed \<noteq> polyStr then Inl (UnmatchedText polyStr)
           else case maxDegree_loop terms 0 of
                  Inl e \<Rightarrow> Inl e
                | Inr maxDegree \<Rightarrow>
                    (case make_float64 (int64_add maxDegree 1) of
                       Inl e \<Rightarrow> Inl e
                     | Inr coefficients \<Rightarrow> coefficients_loop terms coefficients))"

section \<open>The interpolator\<close>

text \<open>
  \<open>Interpolate\<close> fills a \<open>mat.Dense\<close> and a \<open>mat.VecDense\<close> of the package
  \<open>gonum.org/v1/gonum/mat\<close> and calls \<open>SolveVec\<close>. A dense matrix is the list of its rows.
  The package is not part of the repository: its solver is a parameter of the model, a
  function that returns the solution vector or the message of its error.
\<close>

type_synonym dense = "float64 list list"
type_synonym solver = "dense \<Rightarrow> float64 list \<Rightarrow> string + float64 list"

text \<open>\<open>v.Set(i, j, e)\<close>, for indices within the matrix.\<close>

definition Dense_Set :: "dense \<Rightarrow> nat \<Rightarrow> nat \<Rightarrow> float64 \<Rightarrow> dense" where
  "Dense_Set v i j e = v[i := (v ! i)[j := e]]"

text \<open>\<open>math.Pow(x, float64(j))\<close> for an index \<open>j\<close>: the power, 1 at \<open>j = 0\<close>.\<close>

definition math_Pow :: "float64 \<Rightarrow> nat \<Rightarrow> float64" where
  "math_Pow x j = x ^ j"

text \<open>The inner loop over \<open>j\<close> fills row \<open>i\<close>; the outer loop fills the rows and \<open>b\<close>.\<close>

definition fill_row :: "(float64 \<times> float64) list \<Rightarrow> nat \<Rightarrow> nat \<Rightarrow> dense \<Rightarrow> dense" where
  "fill_row points n i v =
     (let x = fst (points ! i) in
      fold (\<lambda>j v. Dense_Set v i j (math_Pow x j)) [0..<n] v)"

definition fill_system :: "(float64 \<times> float64) list \<Rightarrow> nat \<Rightarrow> dense \<times> float64 list" where
  "fill_system points n =
     fold (\<lambda>i (v, b). (fill_row points n i v, b[i := snd (points ! i)]))
       [0..<n] (replicate n (replicate n 0), replicate n 0)"

text \<open>
  \<open>coeffs.AtVec(i)\<close> panics for an index outside the vector the solver returned.
\<close>

definition Interpolate :: "solver \<Rightarrow> (float64 \<times> float64) list \<Rightarrow> error + float64 list" where
  "Interpolate SolveVec points =
     (if length points = 0 then Inl NoPoints
      else
        let n = length points;
            (v, b) = fill_system points n
        in case SolveVec v b of
             Inl err \<Rightarrow> Inl (SolveFailed err)
           | Inr coeffs \<Rightarrow>
               if length coeffs < n then Inl PanicIndex
               else Inr (map (\<lambda>i. coeffs ! i) [0..<n]))"

section \<open>The specification's notions\<close>

text \<open>
  The definitions of this section follow the words of the specification, not the code;
  the theorems below compare the two.
\<close>

subsection \<open>Simultaneous iteration\<close>

text \<open>The polynomial with real coefficients \<open>cs\<close>, at a complex point.\<close>

definition poly_value :: "real list \<Rightarrow> complex \<Rightarrow> complex" where
  "poly_value cs z = (\<Sum>k<length cs. of_real (cs ! k) * z ^ k)"

text \<open>
  One round of the Weierstrass (Durand-Kerner) iteration: every candidate \<open>r\<^sub>i\<close> becomes
  \<open>r\<^sub>i - P(r\<^sub>i) / \<Prod>\<^sub>j\<^sub>\<noteq>\<^sub>i (r\<^sub>i - r\<^sub>j)\<close>, all of them from the candidates \<open>rs\<close> of the
  round before.
\<close>

definition weierstrass_step :: "real list \<Rightarrow> complex list \<Rightarrow> complex list" where
  "weierstrass_step cs rs =
     map (\<lambda>i. rs ! i - poly_value cs (rs ! i) / (\<Prod>j\<in>{0..<length rs} - {i}. rs ! i - rs ! j))
       [0..<length rs]"

text \<open>\<open>n\<close> candidates on the unit circle, at the angles \<open>2\<pi>i/n\<close>.\<close>

definition unit_circle_start :: "nat \<Rightarrow> complex list" where
  "unit_circle_start n = map (\<lambda>i. cis (2 * pi * real i / real n)) [0..<n]"

text \<open>
  The candidates of the iteration after \<open>k\<close> rounds, from that start; and the rounds
  that settle: round \<open>k + 1\<close> of the iteration moves no candidate by more than \<open>1e-10\<close>.
\<close>

definition weierstrass_iterate :: "real list \<Rightarrow> nat \<Rightarrow> complex list" where
  "weierstrass_iterate cs k = (weierstrass_step cs ^^ k) (unit_circle_start (length cs - 1))"

definition round_settles :: "real list \<Rightarrow> nat \<Rightarrow> bool" where
  "round_settles cs k =
     list_all
       (\<lambda>i. cmod (weierstrass_iterate cs (k + 1) ! i - weierstrass_iterate cs k ! i)
              \<le> 1 / 10 ^ 10)
       [0..<length cs - 1]"

text \<open>The candidates the code holds after \<open>k\<close> rounds that did not end the loop.\<close>

definition dk_iterate :: "float64 list \<Rightarrow> nat \<Rightarrow> complex128 list" where
  "dk_iterate coefficients k =
     (dk_round coefficients ^^ k) (initial_guesses (length coefficients - 1))"

text \<open>
  Round \<open>k + 1\<close> moves no candidate by more than \<open>1e-10\<close>; and round \<open>k + 1\<close> moves
  every candidate by less than \<open>1e-10\<close>.
\<close>

definition no_move_above :: "float64 list \<Rightarrow> nat \<Rightarrow> bool" where
  "no_move_above coefficients k =
     list_all
       (\<lambda>i. cmod (dk_iterate coefficients (k + 1) ! i - dk_iterate coefficients k ! i)
              \<le> 1 / 10 ^ 10)
       [0..<length coefficients - 1]"

definition all_moves_below :: "float64 list \<Rightarrow> nat \<Rightarrow> bool" where
  "all_moves_below coefficients k =
     list_all
       (\<lambda>i. cmod (dk_iterate coefficients (k + 1) ! i - dk_iterate coefficients k ! i)
              < 1 / 10 ^ 10)
       [0..<length coefficients - 1]"

subsection \<open>Factor strings\<close>

text \<open>
  A number written with exactly two decimal places: some characters without a point, not
  none, then a point and two digits.
\<close>

definition two_decimals :: "string \<Rightarrow> bool" where
  "two_decimals s =
     (case rev s of
        b # a # p # ip \<Rightarrow>
          p = CHR ''.'' \<and> isDigit a \<and> isDigit b \<and> ip \<noteq> [] \<and> CHR ''.'' \<notin> set ip
      | _ \<Rightarrow> False)"

subsection \<open>Terms\<close>

text \<open>
  A term is a sign, an optional magnitude and an optional power of the variable. The
  text of the exponent is what follows the marker \<open>^\<close>; the sign and the magnitude are
  what stands before the variable. A term without the variable has degree 0, the bare
  variable degree 1, and \<open>x^k\<close> degree \<open>k\<close>. The coefficient is 1 or -1 when no
  magnitude stands before the variable, and the number the sign and magnitude denote
  otherwise. An exponent is malformed when what follows the marker is not an integer:
  no digits, something else than digits, or a number beyond the range of \<open>int\<close>.
\<close>

definition exponent_text :: "string \<Rightarrow> string" where
  "exponent_text t = tl (dropWhile (\<lambda>c. c \<noteq> CHR ''^'') t)"

definition magnitude_text :: "string \<Rightarrow> string" where
  "magnitude_text t = takeWhile (\<lambda>c. c \<noteq> CHR ''x'') t"

definition term_power :: "string \<Rightarrow> nat" where
  "term_power t =
     (if CHR ''x'' \<notin> set t then 0
      else if CHR ''^'' \<notin> set t then 1
      else nat_of_digits (exponent_text t))"

definition term_coefficient :: "string \<Rightarrow> real" where
  "term_coefficient t =
     (if CHR ''x'' \<in> set t \<and> (magnitude_text t = [] \<or> magnitude_text t = ''+'') then 1
      else if CHR ''x'' \<in> set t \<and> magnitude_text t = ''-'' then - 1
      else decimal_value (magnitude_text t))"

definition malformed_exponent :: "string \<Rightarrow> bool" where
  "malformed_exponent t = (CHR ''^'' \<in> set t \<and> Atoi (exponent_text t) = None)"

subsection \<open>The Vandermonde system\<close>

text \<open>
  The matrix \<open>M[i][j] = x\<^sub>i\<^sup>j\<close> and the right-hand side \<open>b[i] = y\<^sub>i\<close> of \<open>n\<close> points; what
  it is for a vector \<open>c\<close> to solve \<open>M \<sqdot> c = b\<close>; and a solver that is exact on a system:
  it returns a solution only if it is the only one, and fails only if there is not
  exactly one.
\<close>

definition vandermonde :: "(real \<times> real) list \<Rightarrow> real list list" where
  "vandermonde points =
     map (\<lambda>i. map (\<lambda>j. fst (points ! i) ^ j) [0..<length points]) [0..<length points]"

definition rhs :: "(real \<times> real) list \<Rightarrow> real list" where
  "rhs points = map snd points"

definition solves :: "real list list \<Rightarrow> real list \<Rightarrow> real list \<Rightarrow> bool" where
  "solves M b c =
     (length c = length b \<and> map (\<lambda>row. \<Sum>j<length c. row ! j * c ! j) M = b)"

definition exact_on :: "solver \<Rightarrow> real list list \<Rightarrow> real list \<Rightarrow> bool" where
  "exact_on SolveVec M b =
     (case SolveVec M b of
        Inl err \<Rightarrow> \<not> (\<exists>!c. solves M b c)
      | Inr c \<Rightarrow> solves M b c \<and> (\<forall>c'. solves M b c' \<longrightarrow> c' = c))"

subsection \<open>Example inputs\<close>

text \<open>The coefficient vector of \<open>c \<sqdot> x\<^sup>4\<close>.\<close>

definition pure_quartic :: "float64 \<Rightarrow> float64 list" where
  "pure_quartic c = [0, 0, 0, 0, c]"

section \<open>Notions of the proofs\<close>

subsection \<open>The language of the term pattern\<close>

text \<open>
  The strings a piece matches, the strings a sequence of pieces matches, and the three
  shapes of a string the term pattern matches: signs, digits and points only; these
  followed by \<open>x\<close> and digits; these followed by \<open>x^\<close> and digits.
\<close>

fun piece_lang :: "piece \<Rightarrow> string \<Rightarrow> bool" where
  "piece_lang (One cls) m = (length m = 1 \<and> set m \<subseteq> set cls)"
| "piece_lang (Opt cls) m = (length m \<le> 1 \<and> set m \<subseteq> set cls)"
| "piece_lang (Star cls) m = (set m \<subseteq> set cls)"
| "piece_lang (Plus cls) m = (m \<noteq> [] \<and> set m \<subseteq> set cls)"

fun seq_lang :: "piece list \<Rightarrow> string \<Rightarrow> bool" where
  "seq_lang [] m = (m = [])"
| "seq_lang (p # ps) m = (\<exists>a b. m = a @ b \<and> piece_lang p a \<and> seq_lang ps b)"

definition term_shape :: "string \<Rightarrow> bool" where
  "term_shape t =
     (\<exists>pre d3. CHR ''x'' \<notin> set pre \<and> CHR ''^'' \<notin> set pre \<and> list_all isDigit d3 \<and>
        (t = pre \<or> t = pre @ ''x'' @ d3 \<or> t = pre @ ''x^'' @ d3))"

text \<open>A term of the pattern is never empty.\<close>

definition term_ok :: "string \<Rightarrow> bool" where
  "term_ok t = (term_shape t \<and> t \<noteq> [])"

subsection \<open>Polynomials as coefficient lists\<close>

text \<open>Evaluation by Horner's rule, and the product of a polynomial with \<open>X - a\<close>.\<close>

fun horner :: "real list \<Rightarrow> real \<Rightarrow> real" where
  "horner [] x = 0"
| "horner (c # cs) x = c + x * horner cs x"

text \<open>\<open>mul_lin a p q\<close> is the coefficient list of \<open>p + (X - a) \<sqdot> q\<close>.\<close>

fun mul_lin :: "real \<Rightarrow> real \<Rightarrow> real list \<Rightarrow> real list" where
  "mul_lin a p [] = [p]"
| "mul_lin a p (c # cs) = (p - a * c) # mul_lin a c cs"

definition node_poly :: "real list \<Rightarrow> real list" where
  "node_poly xs = foldr (\<lambda>a q. mul_lin a 0 q) xs [1]"

subsection \<open>The corners of a square\<close>

text \<open>
  The four points \<open>a, a\<i>, -a, -a\<i>\<close>, which the candidates of \<open>c \<sqdot> x\<^sup>4\<close> are in every
  round, and the distance each of them moves in round \<open>k + 1\<close>.
\<close>

definition square_points :: "real \<Rightarrow> complex list" where
  "square_points a = [Complex a 0, Complex 0 a, Complex (- a) 0, Complex 0 (- a)]"

definition quartic_move :: "real \<Rightarrow> nat \<Rightarrow> real" where
  "quartic_move c k = \<bar>(1 - c / 4) ^ (k + 1) - (1 - c / 4) ^ k\<bar>"

section \<open>Properties of the root solver\<close>

subsection \<open>Slices filled index by index\<close>

lemma fold_update_prefix:
  "k \<le> length xs \<Longrightarrow>
   fold (\<lambda>i ys. ys[i := f i]) [0..<k] xs = map f [0..<k] @ drop k xs"
proof (induction k)
  case 0
  then show ?case by simp
next
  case (Suc k)
  then have k: "k < length xs" by simp
  have "fold (\<lambda>i ys. ys[i := f i]) [0..<Suc k] xs = (map f [0..<k] @ drop k xs)[k := f k]"
    using Suc by simp
  also have "\<dots> = map f [0..<k] @ (drop k xs)[0 := f k]"
    by (simp add: list_update_append)
  also have "(drop k xs)[0 := f k] = f k # drop (Suc k) xs"
    using k by (simp add: Cons_nth_drop_Suc [symmetric])
  finally show ?case by simp
qed

lemma fold_update_all:
  "fold (\<lambda>i ys. ys[i := f i]) [0..<n] (replicate n z) = map f [0..<n]"
  using fold_update_prefix [of n "replicate n z" f] by simp

subsection \<open>The library functions and the polynomial\<close>

lemma cmplx_Rect_cis: "cmplx_Rect 1 \<theta> = cis \<theta>"
  by (simp add: cmplx_Rect_def complex_eq_iff)

lemma initial_guesses_map:
  "initial_guesses n = map (\<lambda>i. cis (2 * pi * real i / real n)) [0..<n]"
  unfolding initial_guesses_def by (simp add: fold_update_all cmplx_Rect_cis)

lemma cmplx_Pow_power: "cmplx_Pow x i = x ^ i"
proof (cases "x = 0")
  case True
  then show ?thesis by (simp add: cmplx_Pow_def)
next
  case False
  then have pos: "0 < cmod x" by simp
  have "cmplx_Pow x i = rcis (cmod x powr real i) (real i * Arg x)"
    using False by (simp add: cmplx_Pow_def Let_def rcis_def complex_eq_iff)
  also have "cmod x powr real i = cmod x ^ i"
    using pos by (simp add: powr_realpow)
  also have "rcis (cmod x ^ i) (real i * Arg x) = (rcis (cmod x) (Arg x)) ^ i"
    by (simp add: DeMoivre2)
  also have "\<dots> = x ^ i"
    by (simp add: rcis_cmod_Arg)
  finally show ?thesis .
qed

lemma evaluatePolynomial_loop_sum:
  "evaluatePolynomial_loop cs x i acc = acc + (\<Sum>k<length cs. of_real (cs ! k) * x ^ (i + k))"
proof (induction cs arbitrary: i acc)
  case Nil
  then show ?case by simp
next
  case (Cons c cs)
  have "(\<Sum>k<Suc (length cs). complex_of_real ((c # cs) ! k) * x ^ (i + k))
        = of_real c * x ^ i + (\<Sum>k<length cs. of_real (cs ! k) * x ^ (Suc i + k))"
    by (subst sum.lessThan_Suc_shift) simp
  then show ?case
    using Cons.IH [of "Suc i"] by (simp add: cmplx_Pow_power complex_of_real_def algebra_simps)
qed

lemma evaluatePolynomial_sum:
  "evaluatePolynomial cs x = (\<Sum>k<length cs. of_real (cs ! k) * x ^ k)"
  by (simp add: evaluatePolynomial_def evaluatePolynomial_loop_sum zero_complex.code)

subsection \<open>One round\<close>

lemma fold_mult_filter:
  "fold (\<lambda>j d. if P j then d * g j else d) xs (a::complex) = a * prod_list (map g (filter P xs))"
  by (induction xs arbitrary: a) (simp_all add: mult.assoc)

lemma dk_denominator_prod:
  "dk_denominator roots i = (\<Prod>j\<in>{0..<length roots} - {i}. roots ! i - roots ! j)"
proof -
  have "dk_denominator roots i
        = prod_list (map (\<lambda>j. roots ! i - roots ! j) (filter (\<lambda>j. i \<noteq> j) [0..<length roots]))"
    by (simp add: dk_denominator_def fold_mult_filter one_complex.code)
  also have "\<dots> = (\<Prod>j\<in>set (filter (\<lambda>j. i \<noteq> j) [0..<length roots]). roots ! i - roots ! j)"
    by (rule prod.distinct_set_conv_list [symmetric]) simp
  also have "set (filter (\<lambda>j. i \<noteq> j) [0..<length roots]) = {0..<length roots} - {i}"
    by auto
  finally show ?thesis .
qed

lemma dk_round_map:
  "dk_round coefficients roots =
     map (\<lambda>i. roots ! i - evaluatePolynomial coefficients (roots ! i) / dk_denominator roots i)
       [0..<length roots]"
  unfolding dk_round_def Let_def by (rule fold_update_all)

lemma length_dk_round [simp]: "length (dk_round coefficients roots) = length roots"
  by (simp add: dk_round_map)


subsection \<open>One round on \<open>c \<sqdot> x\<^sup>4\<close>\<close>

text \<open>
  For \<open>c \<sqdot> x\<^sup>4\<close> the four initial guesses are \<open>1, \<i>, -1, -\<i>\<close>, and a round takes the
  corners \<open>a, a\<i>, -a, -a\<i>\<close> of a square to those of the square of \<open>a \<sqdot> (1 - c/4)\<close>: the
  polynomial is \<open>c \<sqdot> r\<^sup>4\<close> at a corner \<open>r\<close> and the denominator there is \<open>4 \<sqdot> r\<^sup>3\<close>.
\<close>

lemma upt4: "[0..<4] = [0, 1, 2, 3]"
  by (simp add: upt_rec)

lemma cis_3pi_half: "cis (pi * 3 / 2) = - \<i>"
proof -
  have "pi * 3 / 2 = pi + pi / 2" by simp
  then have "cis (pi * 3 / 2) = cis pi * cis (pi / 2)"
    by (simp only: cis_mult)
  then show ?thesis by simp
qed

lemma initial_guesses_4: "initial_guesses 4 = [1, \<i>, - 1, - \<i>]"
  unfolding initial_guesses_map upt4 by (simp add: cis_3pi_half)

lemma initial_guesses_square: "initial_guesses 4 = square_points 1"
  by (simp add: initial_guesses_4 square_points_def complex_eq_iff)

lemma evaluatePolynomial_quartic:
  "evaluatePolynomial (pure_quartic c) x = of_real c * x ^ 4"
  unfolding evaluatePolynomial_sum pure_quartic_def
  by (simp add: lessThan_Suc numeral_eq_Suc)

lemma length_square_points: "length (square_points a) = 4"
  by (simp add: square_points_def)

lemma below_4: "i < 4 \<Longrightarrow> i = 0 \<or> i = Suc 0 \<or> i = 2 \<or> i = (3::nat)"
  by linarith

lemma dk_denominator_square:
  assumes "i < 4"
  shows "dk_denominator (square_points a) i = 4 * (square_points a ! i) ^ 3"
proof -
  have d: "dk_denominator (square_points a) 0 = 4 * (square_points a ! 0) ^ 3"
    "dk_denominator (square_points a) (Suc 0) = 4 * (square_points a ! Suc 0) ^ 3"
    "dk_denominator (square_points a) 2 = 4 * (square_points a ! 2) ^ 3"
    "dk_denominator (square_points a) 3 = 4 * (square_points a ! 3) ^ 3"
    unfolding dk_denominator_def square_points_def
    by (simp_all add: upt4 complex_eq_iff power3_eq_cube algebra_simps)
  from below_4 [OF assms] show ?thesis using d by blast
qed

lemma square_points_nonzero:
  assumes "a \<noteq> 0" and "i < 4"
  shows "square_points a ! i \<noteq> 0"
  using below_4 [OF assms(2)] assms(1) by (auto simp add: square_points_def complex_eq_iff)

lemma square_points_scale:
  "map (\<lambda>z. z * of_real t) (square_points a) = square_points (a * t)"
  by (simp add: square_points_def complex_eq_iff)

lemma quartic_update:
  assumes "z \<noteq> (0::complex)"
  shows "z - of_real c * z ^ 4 / (4 * z ^ 3) = z * of_real (1 - c / 4)"
proof -
  have "z ^ 4 = z * z ^ 3" by (simp add: power4_eq_xxxx power3_eq_cube)
  then have "of_real c * z ^ 4 / (4 * z ^ 3) = of_real c * z / 4"
    using assms by simp
  then show ?thesis by (simp add: algebra_simps)
qed

lemma dk_round_quartic:
  assumes "a \<noteq> 0"
  shows "dk_round (pure_quartic c) (square_points a) = square_points (a * (1 - c / 4))"
proof -
  let ?sp = "square_points a"
  have "dk_round (pure_quartic c) ?sp
      = map (\<lambda>i. ?sp ! i - of_real c * (?sp ! i) ^ 4 / dk_denominator ?sp i) [0..<length ?sp]"
    unfolding dk_round_map evaluatePolynomial_quartic ..
  also have "\<dots> = map (\<lambda>i. ?sp ! i * of_real (1 - c / 4)) [0..<length ?sp]"
  proof (rule map_cong [OF refl])
    fix i assume "i \<in> set [0..<length ?sp]"
    then have i: "i < 4" by (simp add: length_square_points)
    show "?sp ! i - of_real c * (?sp ! i) ^ 4 / dk_denominator ?sp i
        = ?sp ! i * of_real (1 - c / 4)"
      unfolding dk_denominator_square [OF i]
      by (rule quartic_update) (rule square_points_nonzero [OF assms i])
  qed
  also have "\<dots> = map (\<lambda>z. z * of_real (1 - c / 4)) ?sp"
    by (rule nth_equalityI) simp_all
  also have "\<dots> = square_points (a * (1 - c / 4))"
    by (rule square_points_scale)
  finally show ?thesis .
qed

subsection \<open>The loop\<close>

lemma length_funpow_dk_round [simp]:
  "length ((dk_round coefficients ^^ k) roots) = length roots"
  by (induction k) simp_all

lemma length_initial_guesses [simp]: "length (initial_guesses n) = n"
  by (simp add: initial_guesses_map)

lemma length_dk_iterate [simp]: "length (dk_iterate coefficients k) = length coefficients - 1"
  by (simp add: dk_iterate_def)

lemma dk_loop_break:
  "iter + k < 1000 \<Longrightarrow>
   dk_converged ((dk_round cs ^^ k) roots) ((dk_round cs ^^ Suc k) roots) \<Longrightarrow>
   (\<And>j. j < k \<Longrightarrow> \<not> dk_converged ((dk_round cs ^^ j) roots) ((dk_round cs ^^ Suc j) roots)) \<Longrightarrow>
   dk_loop cs iter roots = (iter + k + 1, (dk_round cs ^^ k) roots)"
proof (induction k arbitrary: iter roots)
  case 0
  then show ?case by (subst dk_loop.simps) simp
next
  case (Suc k)
  have first: "\<not> dk_converged roots (dk_round cs roots)"
    using Suc.prems(3) [of 0] by simp
  have "dk_loop cs (iter + 1) (dk_round cs roots)
        = (iter + 1 + k + 1, (dk_round cs ^^ k) (dk_round cs roots))"
  proof (rule Suc.IH)
    show "iter + 1 + k < 1000" using Suc.prems(1) by simp
    show "dk_converged ((dk_round cs ^^ k) (dk_round cs roots))
            ((dk_round cs ^^ Suc k) (dk_round cs roots))"
      using Suc.prems(2) by (simp only: funpow_Suc_right o_apply)
    show "\<not> dk_converged ((dk_round cs ^^ j) (dk_round cs roots))
            ((dk_round cs ^^ Suc j) (dk_round cs roots))" if "j < k" for j
      using Suc.prems(3) [of "Suc j"] that by (simp only: funpow_Suc_right o_apply) simp
  qed
  moreover have "iter < 1000" using Suc.prems(1) by simp
  ultimately show ?case
    using first by (subst dk_loop.simps) (simp add: funpow_swap1)
qed

lemma dk_loop_exhaust:
  "iter + m = 1000 \<Longrightarrow>
   (\<And>j. j < m \<Longrightarrow> \<not> dk_converged ((dk_round cs ^^ j) roots) ((dk_round cs ^^ Suc j) roots)) \<Longrightarrow>
   dk_loop cs iter roots = (1000, (dk_round cs ^^ m) roots)"
proof (induction m arbitrary: iter roots)
  case 0
  then show ?case by (subst dk_loop.simps) simp
next
  case (Suc m)
  have first: "\<not> dk_converged roots (dk_round cs roots)"
    using Suc.prems(2) [of 0] by simp
  have "dk_loop cs (iter + 1) (dk_round cs roots) = (1000, (dk_round cs ^^ m) (dk_round cs roots))"
  proof (rule Suc.IH)
    show "iter + 1 + m = 1000" using Suc.prems(1) by simp
    show "\<not> dk_converged ((dk_round cs ^^ j) (dk_round cs roots))
            ((dk_round cs ^^ Suc j) (dk_round cs roots))" if "j < m" for j
      using Suc.prems(2) [of "Suc j"] that by (simp only: funpow_Suc_right o_apply) simp
  qed
  moreover have "iter < 1000" using Suc.prems(1) by simp
  ultimately show ?case
    using first by (subst dk_loop.simps) (simp add: funpow_swap1)
qed



lemma dk_round_weierstrass: "dk_round cs rs = weierstrass_step cs rs"
  by (simp add: dk_round_map weierstrass_step_def poly_value_def evaluatePolynomial_sum
      dk_denominator_prod)

lemma dk_round_weierstrass_fun: "dk_round cs = weierstrass_step cs"
  by (rule ext) (rule dk_round_weierstrass)

lemma FindRoots_iterative:
  "4 \<le> length cs \<Longrightarrow> FindRoots cs = Inr (findRootsDurandKerner cs)"
  by (auto simp add: FindRoots_def)

lemma findRootsDurandKerner_loop:
  "4 \<le> length cs \<Longrightarrow>
   findRootsDurandKerner cs = snd (dk_loop cs 0 (initial_guesses (length cs - 1)))"
proof -
  assume "4 \<le> length cs"
  then have "\<not> int (length cs) - 1 < 1" and "nat (int (length cs) - 1) = length cs - 1"
    by simp_all
  then show ?thesis
    by (simp only: findRootsDurandKerner_def Let_def if_False)
qed

lemma dk_rounds_loop:
  "4 \<le> length cs \<Longrightarrow> dk_rounds cs = fst (dk_loop cs 0 (initial_guesses (length cs - 1)))"
proof -
  assume "4 \<le> length cs"
  then have "\<not> int (length cs) - 1 < 1" and "nat (int (length cs) - 1) = length cs - 1"
    by simp_all
  then show ?thesis
    by (simp only: dk_rounds_def Let_def if_False)
qed

lemma no_move_above_converged:
  "no_move_above cs k = dk_converged (dk_iterate cs k) (dk_iterate cs (k + 1))"
  by (simp add: no_move_above_def dk_converged_def cmplx_Abs_def not_less)


text \<open>The iteration of the specification is the one the code runs.\<close>

lemma weierstrass_iterate_dk: "weierstrass_iterate cs k = dk_iterate cs k"
  by (simp add: weierstrass_iterate_def dk_iterate_def dk_round_weierstrass_fun
      initial_guesses_map unit_circle_start_def)

lemma round_settles_dk: "round_settles cs k = no_move_above cs k"
  by (simp add: round_settles_def no_move_above_def weierstrass_iterate_dk)

text \<open>Where the loop ends: in the first round that settles, or after the 1000th.\<close>

lemma dk_loop_first_settled:
  assumes "4 \<le> length cs" and "k < 1000" and "no_move_above cs k"
    and "\<forall>j<k. \<not> no_move_above cs j"
  shows "dk_rounds cs = k + 1" and "findRootsDurandKerner cs = dk_iterate cs k"
proof -
  let ?init = "initial_guesses (length cs - 1)"
  have conv: "no_move_above cs k
      = dk_converged ((dk_round cs ^^ k) ?init) ((dk_round cs ^^ Suc k) ?init)" for k
    by (simp add: no_move_above_converged dk_iterate_def)
  have "dk_loop cs 0 ?init = (0 + k + 1, (dk_round cs ^^ k) ?init)"
  proof (rule dk_loop_break)
    show "0 + k < 1000" using assms(2) by simp
    show "dk_converged ((dk_round cs ^^ k) ?init) ((dk_round cs ^^ Suc k) ?init)"
      using assms(3) unfolding conv .
    show "\<not> dk_converged ((dk_round cs ^^ j) ?init) ((dk_round cs ^^ Suc j) ?init)"
      if "j < k" for j
      using that assms(4) unfolding conv by blast
  qed
  then show "dk_rounds cs = k + 1" and "findRootsDurandKerner cs = dk_iterate cs k"
    using assms(1) by (simp_all add: dk_rounds_loop findRootsDurandKerner_loop dk_iterate_def)
qed

lemma dk_loop_never_settled:
  assumes "4 \<le> length cs" and "\<forall>k<1000. \<not> no_move_above cs k"
  shows "dk_rounds cs = 1000" and "findRootsDurandKerner cs = dk_iterate cs 1000"
proof -
  let ?init = "initial_guesses (length cs - 1)"
  have conv: "no_move_above cs k
      = dk_converged ((dk_round cs ^^ k) ?init) ((dk_round cs ^^ Suc k) ?init)" for k
    by (simp add: no_move_above_converged dk_iterate_def)
  have "dk_loop cs 0 ?init = (1000, (dk_round cs ^^ 1000) ?init)"
  proof (rule dk_loop_exhaust)
    show "0 + 1000 = (1000::nat)" by simp
    show "\<not> dk_converged ((dk_round cs ^^ j) ?init) ((dk_round cs ^^ Suc j) ?init)"
      if "j < 1000" for j
      using that assms(2) unfolding conv by blast
  qed
  then show "dk_rounds cs = 1000" and "findRootsDurandKerner cs = dk_iterate cs 1000"
    using assms(1) by (simp_all add: dk_rounds_loop findRootsDurandKerner_loop dk_iterate_def)
qed

subsection \<open>The iteration on \<open>c \<sqdot> x\<^sup>4\<close>\<close>

text \<open>
  After \<open>k\<close> rounds the candidates are the corners of the square of \<open>(1 - c/4)\<^sup>k\<close>. For
  \<open>c = 2\<close> every round halves them: round \<open>k + 1\<close> moves each by \<open>2\<^sup>-\<^sup>(\<^sup>k\<^sup>+\<^sup>1\<^sup>)\<close>, which is above
  \<open>1e-10\<close> up to round 33 and below it in round 34. For \<open>c = 8e-10\<close> every one of the
  1000 rounds moves each candidate by more than \<open>1.9e-10\<close>.
\<close>

lemma length_quartic: "length (pure_quartic c) - 1 = 4" "4 \<le> length (pure_quartic c)"
  by (simp_all add: pure_quartic_def)

lemma dk_iterate_quartic:
  assumes "c \<noteq> 4"
  shows "dk_iterate (pure_quartic c) k = square_points ((1 - c / 4) ^ k)"
proof (induction k)
  case 0
  show ?case
    by (simp only: dk_iterate_def length_quartic funpow_0 initial_guesses_square power_0)
next
  case (Suc k)
  have "dk_iterate (pure_quartic c) (Suc k)
      = dk_round (pure_quartic c) (dk_iterate (pure_quartic c) k)"
    by (simp add: dk_iterate_def)
  also have "\<dots> = square_points ((1 - c / 4) ^ k * (1 - c / 4))"
    unfolding Suc by (rule dk_round_quartic) (use assms in simp)
  finally show ?case by (simp only: power_Suc2)
qed

lemma cmod_axis: "cmod (Complex a 0) = \<bar>a\<bar>" "cmod (Complex 0 a) = \<bar>a\<bar>"
  by (simp_all add: cmod_def)

lemma square_points_move:
  assumes "i < 4"
  shows "cmod (square_points b ! i - square_points a ! i) = \<bar>b - a\<bar>"
proof -
  have flip: "\<bar>a - b\<bar> = \<bar>b - a\<bar>" by simp
  from below_4 [OF assms] consider "i = 0" | "i = Suc 0" | "i = 2" | "i = 3" by blast
  then show ?thesis
  proof cases
    case 1
    then have "square_points b ! i - square_points a ! i = Complex (b - a) 0"
      by (simp add: square_points_def complex_eq_iff)
    then show ?thesis by (simp only: cmod_axis)
  next
    case 2
    then have "square_points b ! i - square_points a ! i = Complex 0 (b - a)"
      by (simp add: square_points_def complex_eq_iff)
    then show ?thesis by (simp only: cmod_axis)
  next
    case 3
    then have "square_points b ! i - square_points a ! i = Complex (a - b) 0"
      by (simp add: square_points_def complex_eq_iff)
    then show ?thesis by (simp only: cmod_axis flip)
  next
    case 4
    then have "square_points b ! i - square_points a ! i = Complex 0 (a - b)"
      by (simp add: square_points_def complex_eq_iff)
    then show ?thesis by (simp only: cmod_axis flip)
  qed
qed

lemma move_quartic:
  assumes "c \<noteq> 4" and "i < 4"
  shows "cmod (dk_iterate (pure_quartic c) (k + 1) ! i - dk_iterate (pure_quartic c) k ! i)
       = quartic_move c k"
  unfolding dk_iterate_quartic [OF assms(1)] quartic_move_def
  by (rule square_points_move [OF assms(2)])

lemma no_move_above_quartic:
  assumes "c \<noteq> 4"
  shows "no_move_above (pure_quartic c) k \<longleftrightarrow> quartic_move c k \<le> 1 / 10 ^ 10"
proof
  assume "no_move_above (pure_quartic c) k"
  then have "\<forall>i\<in>set [0..<4].
      cmod (dk_iterate (pure_quartic c) (k + 1) ! i - dk_iterate (pure_quartic c) k ! i)
      \<le> 1 / 10 ^ 10"
    unfolding no_move_above_def length_quartic list_all_iff .
  moreover have "0 \<in> set [0..<4::nat]" by simp
  ultimately have "cmod (dk_iterate (pure_quartic c) (k + 1) ! 0 - dk_iterate (pure_quartic c) k ! 0)
      \<le> 1 / 10 ^ 10"
    by blast
  moreover have "cmod (dk_iterate (pure_quartic c) (k + 1) ! 0 - dk_iterate (pure_quartic c) k ! 0)
      = quartic_move c k"
    by (rule move_quartic [OF assms]) simp
  ultimately show "quartic_move c k \<le> 1 / 10 ^ 10" by (simp only:)
next
  assume le: "quartic_move c k \<le> 1 / 10 ^ 10"
  show "no_move_above (pure_quartic c) k"
    unfolding no_move_above_def length_quartic list_all_iff
  proof (intro ballI)
    fix i assume "i \<in> set [0..<4::nat]"
    then have "i < 4" by simp
    then show "cmod (dk_iterate (pure_quartic c) (k + 1) ! i - dk_iterate (pure_quartic c) k ! i)
        \<le> 1 / 10 ^ 10"
      using le by (simp only: move_quartic [OF assms])
  qed
qed

lemma all_moves_below_quartic:
  assumes "c \<noteq> 4" and "quartic_move c k < 1 / 10 ^ 10"
  shows "all_moves_below (pure_quartic c) k"
  unfolding all_moves_below_def length_quartic list_all_iff
proof (intro ballI)
  fix i assume "i \<in> set [0..<4::nat]"
  then have "i < 4" by simp
  then show "cmod (dk_iterate (pure_quartic c) (k + 1) ! i - dk_iterate (pure_quartic c) k ! i)
      < 1 / 10 ^ 10"
    using assms(2) by (simp only: move_quartic [OF assms(1)])
qed

lemma quartic_move_halving: "quartic_move 2 k = (1 / 2) ^ (k + 1)"
proof -
  have h: "(1 - 2 / 4 :: real) = 1 / 2" by simp
  have "quartic_move 2 k = \<bar>(1 / 2) ^ (k + 1) - (1 / 2 :: real) ^ k\<bar>"
    unfolding quartic_move_def h ..
  also have "(1 / 2) ^ (k + 1) - (1 / 2 :: real) ^ k = - ((1 / 2) ^ (k + 1))"
    by simp
  also have "\<bar>- ((1 / 2 :: real) ^ (k + 1))\<bar> = (1 / 2) ^ (k + 1)"
    by simp
  finally show ?thesis .
qed

lemma halving_settles:
  "no_move_above (pure_quartic 2) 33" "\<forall>j<33. \<not> no_move_above (pure_quartic 2) j"
  "all_moves_below (pure_quartic 2) 33"
proof -
  have c: "(2::real) \<noteq> 4" by simp
  show "no_move_above (pure_quartic 2) 33"
    unfolding no_move_above_quartic [OF c] quartic_move_halving by (simp add: power_one_over)
  show "all_moves_below (pure_quartic 2) 33"
    by (rule all_moves_below_quartic [OF c]) (simp add: quartic_move_halving power_one_over)
  show "\<forall>j<33. \<not> no_move_above (pure_quartic 2) j"
  proof (intro allI impI)
    fix j :: nat assume "j < 33"
    then have "j + 1 \<le> 33" by simp
    then have "(1 / 2 :: real) ^ 33 \<le> (1 / 2) ^ (j + 1)"
      by (intro power_decreasing) simp_all
    moreover have "(1 / 10 ^ 10 :: real) < (1 / 2) ^ 33" by (simp add: power_one_over)
    ultimately show "\<not> no_move_above (pure_quartic 2) j"
      unfolding no_move_above_quartic [OF c] quartic_move_halving by simp
  qed
qed

lemma quartic_move_slow:
  assumes "k < 1000"
  shows "1 / 10 ^ 10 < quartic_move (8 / 10 ^ 10) k"
proof -
  let ?q = "1 - 2 / 10 ^ 10 :: real"
  have q: "(1 - 8 / 10 ^ 10 / 4 :: real) = ?q" by simp
  have "quartic_move (8 / 10 ^ 10) k = \<bar>?q ^ (k + 1) - ?q ^ k\<bar>"
    unfolding quartic_move_def q ..
  also have "?q ^ (k + 1) - ?q ^ k = - (?q ^ k * (2 / 10 ^ 10))"
    by (simp add: algebra_simps)
  also have "\<bar>- (?q ^ k * (2 / 10 ^ 10))\<bar> = ?q ^ k * (2 / 10 ^ 10)"
    by simp
  finally have move: "quartic_move (8 / 10 ^ 10) k = ?q ^ k * (2 / 10 ^ 10)" .
  have "1 + real k * (- (2 / 10 ^ 10)) \<le> (1 + (- (2 / 10 ^ 10))) ^ k"
    by (rule Bernoulli_inequality) simp
  moreover have "real k * (2 / 10 ^ 10) < 1000 * (2 / 10 ^ 10)"
    using assms by simp
  ultimately have "1 / 2 < ?q ^ k" by simp
  then have "1 / 2 * (2 / 10 ^ 10) < ?q ^ k * (2 / 10 ^ 10 :: real)"
    by (rule mult_strict_right_mono) simp
  then show ?thesis unfolding move by simp
qed

lemma slow_never_settles: "\<forall>k<1000. \<not> no_move_above (pure_quartic (8 / 10 ^ 10)) k"
proof (intro allI impI)
  fix k :: nat assume "k < 1000"
  have c: "(8 / 10 ^ 10 :: real) \<noteq> 4" by simp
  from quartic_move_slow [OF \<open>k < 1000\<close>]
  show "\<not> no_move_above (pure_quartic (8 / 10 ^ 10)) k"
    unfolding no_move_above_quartic [OF c] by simp
qed

subsection \<open>The simultaneous iteration and its end\<close>

text \<open>
  C2. For a coefficient vector of length at least 4, \<open>FindRoots\<close> runs the simultaneous
  iteration: the \<open>n = length - 1\<close> initial candidates are the points of the unit circle
  at the angles \<open>2\<pi>i/n\<close> (each of modulus 1); a round of the code, which fills a fresh
  slice, is the Weierstrass step, every new candidate computed from the candidates of
  the round before, with the polynomial evaluated from its real coefficients; and what
  \<open>FindRoots\<close> returns is that step applied to the initial candidates exactly as many
  times as there are rounds before the first one that settles, the loop having computed
  one round more, or 1000 times when none of the 1000 rounds settles.
\<close>

theorem DurandKerner_simultaneous:
  assumes "4 \<le> length cs"
  shows "initial_guesses (length cs - 1) = unit_circle_start (length cs - 1)
     \<and> list_all (\<lambda>z. cmod z = 1) (initial_guesses (length cs - 1))
     \<and> (\<forall>rs. dk_round cs rs = weierstrass_step cs rs)
     \<and> (\<forall>k<1000. round_settles cs k \<and> (\<forall>j<k. \<not> round_settles cs j) \<longrightarrow>
           FindRoots cs = Inr (weierstrass_iterate cs k) \<and> dk_rounds cs = k + 1)
     \<and> ((\<forall>k<1000. \<not> round_settles cs k) \<longrightarrow>
           FindRoots cs = Inr (weierstrass_iterate cs 1000) \<and> dk_rounds cs = 1000)"
proof -
  have a: "initial_guesses (length cs - 1) = unit_circle_start (length cs - 1)"
    by (simp add: initial_guesses_map unit_circle_start_def)
  have b: "list_all (\<lambda>z. cmod z = 1) (initial_guesses (length cs - 1))"
    by (simp add: initial_guesses_map list_all_iff)
  have c: "FindRoots cs = Inr (weierstrass_iterate cs k) \<and> dk_rounds cs = k + 1"
    if "k < 1000" "round_settles cs k" "\<forall>j<k. \<not> round_settles cs j" for k
    using dk_loop_first_settled [OF assms that(1)] that(2,3)
    by (simp add: round_settles_dk weierstrass_iterate_dk FindRoots_iterative [OF assms])
  have d: "FindRoots cs = Inr (weierstrass_iterate cs 1000) \<and> dk_rounds cs = 1000"
    if "\<forall>k<1000. \<not> round_settles cs k"
    using dk_loop_never_settled [OF assms] that
    by (simp add: round_settles_dk weierstrass_iterate_dk FindRoots_iterative [OF assms])
  show ?thesis using a b c d dk_round_weierstrass by blast
qed

theorem DurandKerner_simultaneous_witness:
  "FindRoots [0, 0, 0, 0, 2] = Inr (weierstrass_iterate [0, 0, 0, 0, 2] 33)
   \<and> dk_rounds [0, 0, 0, 0, 2] = 34
   \<and> FindRoots [0, 0, 0, 0, 8 / 10 ^ 10] = Inr (weierstrass_iterate [0, 0, 0, 0, 8 / 10 ^ 10] 1000)
   \<and> dk_rounds [0, 0, 0, 0, 8 / 10 ^ 10] = 1000"
proof -
  have settled: "round_settles (pure_quartic 2) 33 \<and> (\<forall>j<33. \<not> round_settles (pure_quartic 2) j)"
    using halving_settles(1,2) by (simp add: round_settles_dk)
  from DurandKerner_simultaneous [OF length_quartic(2), of 2]
  have "\<forall>k<1000. round_settles (pure_quartic 2) k \<and> (\<forall>j<k. \<not> round_settles (pure_quartic 2) j)
      \<longrightarrow> FindRoots (pure_quartic 2) = Inr (weierstrass_iterate (pure_quartic 2) k)
        \<and> dk_rounds (pure_quartic 2) = k + 1"
    by blast
  from this [rule_format, of 33] settled
  have fast: "FindRoots (pure_quartic 2) = Inr (weierstrass_iterate (pure_quartic 2) 33)
      \<and> dk_rounds (pure_quartic 2) = 34"
    by simp
  have never: "\<forall>k<1000. \<not> round_settles (pure_quartic (8 / 10 ^ 10)) k"
    using slow_never_settles by (simp only: round_settles_dk)
  from DurandKerner_simultaneous [OF length_quartic(2), of "8 / 10 ^ 10"]
  have "(\<forall>k<1000. \<not> round_settles (pure_quartic (8 / 10 ^ 10)) k)
      \<longrightarrow> FindRoots (pure_quartic (8 / 10 ^ 10))
            = Inr (weierstrass_iterate (pure_quartic (8 / 10 ^ 10)) 1000)
        \<and> dk_rounds (pure_quartic (8 / 10 ^ 10)) = 1000"
    by blast
  with never
  have slow: "FindRoots (pure_quartic (8 / 10 ^ 10))
            = Inr (weierstrass_iterate (pure_quartic (8 / 10 ^ 10)) 1000)
        \<and> dk_rounds (pure_quartic (8 / 10 ^ 10)) = 1000"
    by blast
  from fast slow show ?thesis
    unfolding pure_quartic_def by blast
qed



subsection \<open>The closed forms and the errors\<close>

text \<open>
  C9. \<open>FindRoots\<close> fails with the empty-input error on a vector of length 0, and with the
  degenerate-coefficient error when the leading coefficient is zero: \<open>c1 = 0\<close> at length
  2, \<open>c2 = 0\<close> at length 3. At length 2 with \<open>c1 \<noteq> 0\<close> it returns the single root
  \<open>-c0/c1\<close>, with imaginary part 0.
\<close>

theorem FindRoots_errors_and_linear:
  "(length coefficients = 0 \<longrightarrow>
      (\<exists>e. FindRoots coefficients = Inl e \<and> kind e = EmptyInputError))
   \<and> (length coefficients = 2 \<and> coefficients ! 1 = 0 \<longrightarrow>
      (\<exists>e. FindRoots coefficients = Inl e \<and> kind e = DegenerateCoefficientError))
   \<and> (length coefficients = 3 \<and> coefficients ! 2 = 0 \<longrightarrow>
      (\<exists>e. FindRoots coefficients = Inl e \<and> kind e = DegenerateCoefficientError))
   \<and> (length coefficients = 2 \<and> coefficients ! 1 \<noteq> 0 \<longrightarrow>
      FindRoots coefficients = Inr [Complex (- (coefficients ! 0) / (coefficients ! 1)) 0])"
  by (simp add: FindRoots_def Let_def)

theorem FindRoots_errors_and_linear_witness:
  "(\<exists>e. FindRoots [] = Inl e \<and> kind e = EmptyInputError)
   \<and> (\<exists>e. FindRoots [5, 0] = Inl e \<and> kind e = DegenerateCoefficientError)
   \<and> (\<exists>e. FindRoots [1, 2, 0] = Inl e \<and> kind e = DegenerateCoefficientError)
   \<and> FindRoots [- 4, 2] = Inr [Complex 2 0]"
  using FindRoots_errors_and_linear [of "[]"] FindRoots_errors_and_linear [of "[5, 0]"]
    FindRoots_errors_and_linear [of "[1, 2, 0]"] FindRoots_errors_and_linear [of "[- 4, 2]"]
  by simp

text \<open>
  C1. For a vector \<open>[c0, c1, c2]\<close> with \<open>c2 \<noteq> 0\<close> and the discriminant
  \<open>D = c1\<^sup>2 - 4 c2 c0\<close>: if \<open>D < 0\<close>, \<open>FindRoots\<close> returns the conjugate pair
  \<open>(-c1 \<plusminus> \<i> sqrt(-D)) / (2 c2)\<close>; if \<open>D \<ge> 0\<close>, the two real roots
  \<open>(-c1 \<plusminus> sqrt D) / (2 c2)\<close>, with imaginary part 0, the root with \<open>+\<close> first.
\<close>

theorem FindRoots_quadratic:
  assumes "c2 \<noteq> 0" and "D = c1\<^sup>2 - 4 * c2 * c0"
  shows "(D < 0 \<longrightarrow> FindRoots [c0, c1, c2] =
            Inr [(of_real (- c1) + \<i> * of_real (sqrt (- D))) / of_real (2 * c2),
                 (of_real (- c1) - \<i> * of_real (sqrt (- D))) / of_real (2 * c2)])
       \<and> (D \<ge> 0 \<longrightarrow> FindRoots [c0, c1, c2] =
            Inr [Complex ((- c1 + sqrt D) / (2 * c2)) 0,
                 Complex ((- c1 - sqrt D) / (2 * c2)) 0])"
proof (intro conjI impI)
  assume neg: "D < 0"
  then have "c1 * c1 - 4 * c2 * c0 < 0"
    using assms(2) by (simp add: power2_eq_square)
  then have "FindRoots [c0, c1, c2] =
      Inr [Complex (- c1 / (2 * c2)) (sqrt (- D) / (2 * c2)),
           Complex (- c1 / (2 * c2)) (- (sqrt (- D) / (2 * c2)))]"
    using assms by (simp add: FindRoots_def Let_def power2_eq_square)
  moreover have "Complex (- c1 / (2 * c2)) (sqrt (- D) / (2 * c2))
      = (of_real (- c1) + \<i> * of_real (sqrt (- D))) / of_real (2 * c2)"
    using assms(1) by (simp add: complex_eq_iff Re_divide Im_divide power2_eq_square)
  moreover have "Complex (- c1 / (2 * c2)) (- (sqrt (- D) / (2 * c2)))
      = (of_real (- c1) - \<i> * of_real (sqrt (- D))) / of_real (2 * c2)"
    using assms(1) by (simp add: complex_eq_iff Re_divide Im_divide power2_eq_square)
  ultimately show "FindRoots [c0, c1, c2] =
      Inr [(of_real (- c1) + \<i> * of_real (sqrt (- D))) / of_real (2 * c2),
           (of_real (- c1) - \<i> * of_real (sqrt (- D))) / of_real (2 * c2)]"
    by simp
next
  assume "0 \<le> D"
  then have "\<not> c1 * c1 - 4 * c2 * c0 < 0"
    using assms(2) by (simp add: power2_eq_square)
  then show "FindRoots [c0, c1, c2] =
      Inr [Complex ((- c1 + sqrt D) / (2 * c2)) 0, Complex ((- c1 - sqrt D) / (2 * c2)) 0]"
    using assms by (simp add: FindRoots_def Let_def power2_eq_square)
qed

theorem FindRoots_quadratic_witness:
  "FindRoots [1, 0, 1] = Inr [\<i>, - \<i>] \<and> FindRoots [6, - 5, 1] = Inr [Complex 3 0, Complex 2 0]"
  using FindRoots_quadratic [of 1 "- 4" 0 1] FindRoots_quadratic [of 1 1 "- 5" 6]
  by (simp add: complex_eq_iff)

text \<open>
  C10. On a vector of length 1 \<open>FindRoots\<close> returns the empty list of roots and no error:
  the length is neither 2 nor 3, and \<open>findRootsDurandKerner\<close> returns no candidate for a
  degree below 1.
\<close>

theorem FindRoots_constant:
  "length coefficients = 1 \<Longrightarrow>
   FindRoots coefficients = Inr [] \<and> findRootsDurandKerner coefficients = []"
  by (simp add: FindRoots_def findRootsDurandKerner_def)

theorem FindRoots_constant_witness:
  "FindRoots [7] = Inr [] \<and> findRootsDurandKerner [7] = []"
  using FindRoots_constant [of "[7]"] by simp

section \<open>Properties of the factorizer\<close>

subsection \<open>The format \<open>%.2f\<close>\<close>

lemma digit_nth: "k < 10 \<Longrightarrow> isDigit (''0123456789'' ! k)"
  unfolding isDigit_def by (rule nth_mem) simp

lemma decimal_digits: "list_all isDigit (decimal n)"
proof (induction n rule: decimal.induct)
  case (1 n)
  show ?case
  proof (cases "n < 10")
    case True
    then show ?thesis using digit_nth [of n] by (subst decimal.simps) simp
  next
    case False
    have "n mod 10 < 10" by simp
    then have "isDigit (''0123456789'' ! (n mod 10))" by (rule digit_nth)
    with False 1 show ?thesis by (subst decimal.simps) simp
  qed
qed

lemma decimal_nonempty: "decimal n \<noteq> []"
  by (subst decimal.simps) simp

lemma isDigit_not_point: "isDigit c \<Longrightarrow> c \<noteq> CHR ''.''"
  by (auto simp add: isDigit_def)

lemma two_decimalsI:
  assumes "isDigit a" "isDigit b" "ip \<noteq> []" "CHR ''.'' \<notin> set ip"
  shows "two_decimals (ip @ ''.'' @ [a, b])"
  using assms by (simp add: two_decimals_def)

lemma format_2f_two_decimals: "two_decimals (format_2f r)"
proof -
  define n where "n = round_half_even (\<bar>r\<bar> * 100)"
  define sg where "sg = (if r < 0 then ''-'' else [])"
  have a: "isDigit (''0123456789'' ! (n mod 100 div 10))"
    by (rule digit_nth) (simp add: div_less_iff_less_mult)
  have b: "isDigit (''0123456789'' ! (n mod 10))"
    by (rule digit_nth) simp
  have c: "CHR ''.'' \<notin> set (sg @ decimal (n div 100))"
    using decimal_digits [of "n div 100"] isDigit_not_point
    by (auto simp add: sg_def list_all_iff)
  have d: "sg @ decimal (n div 100) \<noteq> []"
    using decimal_nonempty by simp
  have "format_2f r = (sg @ decimal (n div 100)) @ ''.'' @
      [''0123456789'' ! (n mod 100 div 10), ''0123456789'' ! (n mod 10)]"
    by (simp add: format_2f_def Let_def n_def sg_def)
  then show ?thesis
    using two_decimalsI [OF a b d c] by simp
qed

lemma format_2f_2: "format_2f 2 = ''2.00''"
  by (simp add: format_2f_def round_half_even_def decimal.simps)

lemma format_2f_3: "format_2f 3 = ''3.00''"
  by (simp add: format_2f_def round_half_even_def decimal.simps)

subsection \<open>\<open>Factorize\<close>\<close>

text \<open>
  C6. At length 2 with \<open>c1 \<noteq> 0\<close>, \<open>Factorize\<close> returns the one factor string
  \<open>(x - r)\<close> for the root \<open>r = -c0/c1\<close>; at length 3 with \<open>c2 \<noteq> 0\<close> and a discriminant
  that is not negative, the factor strings of the two real roots, the smaller root first.
  Every root is written by \<open>%.2f\<close>, which puts exactly two digits after the point.
  \<open>Factorize [-4, 2]\<close> is \<open>["(x - 2.00)"]\<close> and \<open>Factorize [6, -5, 1]\<close> is
  \<open>["(x - 2.00)", "(x - 3.00)"]\<close>.
\<close>

theorem Factorize_factors:
  "(length coefficients = 2 \<and> coefficients ! 1 \<noteq> 0 \<longrightarrow>
      Factorize coefficients =
        Inr [''(x - '' @ format_2f (- (coefficients ! 0) / (coefficients ! 1)) @ '')''])
   \<and> (length coefficients = 3 \<and> coefficients ! 2 \<noteq> 0 \<and>
      0 \<le> (coefficients ! 1)\<^sup>2 - 4 * coefficients ! 2 * coefficients ! 0 \<longrightarrow>
      (let D = (coefficients ! 1)\<^sup>2 - 4 * coefficients ! 2 * coefficients ! 0;
           plus_root = (- (coefficients ! 1) + sqrt D) / (2 * coefficients ! 2);
           minus_root = (- (coefficients ! 1) - sqrt D) / (2 * coefficients ! 2)
       in Factorize coefficients =
            Inr [''(x - '' @ format_2f (min plus_root minus_root) @ '')'',
                 ''(x - '' @ format_2f (max plus_root minus_root) @ '')'']))
   \<and> two_decimals (format_2f r)
   \<and> Factorize [- 4, 2] = Inr [''(x - 2.00)'']
   \<and> Factorize [6, - 5, 1] = Inr [''(x - 2.00)'', ''(x - 3.00)'']"
proof -
  have ex1: "Factorize [- 4, 2] = Inr [''(x - 2.00)'']"
    by (simp add: Factorize_def factor_string_def format_2f_2)
  have ex2: "Factorize [6, - 5, 1] = Inr [''(x - 2.00)'', ''(x - 3.00)'']"
    by (simp add: Factorize_def factor_string_def format_2f_2 format_2f_3)
  show ?thesis
    using ex1 ex2 format_2f_two_decimals [of r]
    by (simp add: Factorize_def Let_def factor_string_def power2_eq_square min_def max_def)
qed

theorem Factorize_factors_witness:
  "Factorize [1, 4] = Inr [''(x - -0.25)'']
   \<and> Factorize [- 3, - 2, 1] = Inr [''(x - -1.00)'', ''(x - 3.00)'']
   \<and> Factorize [3, 2, - 1] = Inr [''(x - -1.00)'', ''(x - 3.00)'']"
proof -
  have f: "format_2f (- (1 / 4)) = ''-0.25''" "format_2f (- 1) = ''-1.00''"
    by (simp_all add: format_2f_def round_half_even_def decimal.simps)
  have s: "sqrt 16 = 4"
    using real_sqrt_abs [of 4] by simp
  show ?thesis
    using Factorize_factors [of "[1, 4]"] Factorize_factors [of "[- 3, - 2, 1]"]
      Factorize_factors [of "[3, 2, - 1]"]
    by (simp add: f s format_2f_3)
qed

text \<open>
  C7. \<open>Factorize\<close> fails with the empty-input error on the empty vector, with the
  unsupported-degree error when the length exceeds 3, with the degenerate-coefficient
  error when the leading coefficient is zero (\<open>c1\<close> at length 2, \<open>c2\<close> at length 3), and
  with the complex-root error when the discriminant of the quadratic is negative: it
  returns no factor then.
\<close>

theorem Factorize_errors:
  "(length coefficients = 0 \<longrightarrow>
      (\<exists>e. Factorize coefficients = Inl e \<and> kind e = EmptyInputError))
   \<and> (length coefficients > 3 \<longrightarrow>
      (\<exists>e. Factorize coefficients = Inl e \<and> kind e = UnsupportedDegreeError))
   \<and> (length coefficients = 2 \<and> coefficients ! 1 = 0 \<longrightarrow>
      (\<exists>e. Factorize coefficients = Inl e \<and> kind e = DegenerateCoefficientError))
   \<and> (length coefficients = 3 \<and> coefficients ! 2 = 0 \<longrightarrow>
      (\<exists>e. Factorize coefficients = Inl e \<and> kind e = DegenerateCoefficientError))
   \<and> (length coefficients = 3 \<and> coefficients ! 2 \<noteq> 0 \<and>
      (coefficients ! 1)\<^sup>2 - 4 * coefficients ! 2 * coefficients ! 0 < 0 \<longrightarrow>
      (\<exists>e. Factorize coefficients = Inl e \<and> kind e = ComplexRootError))"
  by (simp add: Factorize_def Let_def power2_eq_square)

theorem Factorize_errors_witness:
  "(\<exists>e. Factorize [] = Inl e \<and> kind e = EmptyInputError)
   \<and> (\<exists>e. Factorize [- 6, 11, - 6, 1] = Inl e \<and> kind e = UnsupportedDegreeError)
   \<and> (\<exists>e. Factorize [5, 0] = Inl e \<and> kind e = DegenerateCoefficientError)
   \<and> (\<exists>e. Factorize [1, 2, 0] = Inl e \<and> kind e = DegenerateCoefficientError)
   \<and> (\<exists>e. Factorize [1, 0, 1] = Inl e \<and> kind e = ComplexRootError)"
  using Factorize_errors [of "[]"] Factorize_errors [of "[- 6, 11, - 6, 1]"]
    Factorize_errors [of "[5, 0]"] Factorize_errors [of "[1, 2, 0]"]
    Factorize_errors [of "[1, 0, 1]"]
  by simp

section \<open>Properties of the parser\<close>

subsection \<open>What the pattern matches\<close>

lemma star_sound: "r \<in> set (star cls s) \<Longrightarrow> \<exists>m. s = m @ r \<and> set m \<subseteq> set cls"
proof (induction s)
  case Nil
  then show ?case by simp
next
  case (Cons c s)
  show ?case
  proof (cases "r = c # s")
    case True
    then show ?thesis by simp
  next
    case False
    with Cons.prems have c: "c \<in> set cls" and "r \<in> set (star cls s)"
      by (auto split: if_splits)
    then obtain m where "s = m @ r" "set m \<subseteq> set cls"
      using Cons.IH by blast
    then have "c # s = (c # m) @ r \<and> set (c # m) \<subseteq> set cls"
      using c by simp
    then show ?thesis by blast
  qed
qed

lemma match_piece_sound:
  "r \<in> set (match_piece p s) \<Longrightarrow> \<exists>m. s = m @ r \<and> piece_lang p m"
proof (cases p)
  case (One cls)
  assume "r \<in> set (match_piece p s)"
  with One obtain c where "s = c # r" "c \<in> set cls"
    by (auto split: list.splits if_splits)
  then have "s = [c] @ r \<and> piece_lang p [c]" using One by simp
  then show ?thesis by blast
next
  case (Opt cls)
  assume "r \<in> set (match_piece p s)"
  with Opt have "r = s \<or> (\<exists>c. s = c # r \<and> c \<in> set cls)"
    by (auto split: list.splits if_splits)
  then show ?thesis
  proof
    assume "r = s"
    then have "s = [] @ r \<and> piece_lang p []" using Opt by simp
    then show ?thesis by blast
  next
    assume "\<exists>c. s = c # r \<and> c \<in> set cls"
    then obtain c where "s = c # r" "c \<in> set cls" by blast
    then have "s = [c] @ r \<and> piece_lang p [c]" using Opt by simp
    then show ?thesis by blast
  qed
next
  case (Star cls)
  assume "r \<in> set (match_piece p s)"
  with Star show ?thesis using star_sound [of r cls s] by simp
next
  case (Plus cls)
  assume "r \<in> set (match_piece p s)"
  with Plus obtain c t where s: "s = c # t" and c: "c \<in> set cls" and "r \<in> set (star cls t)"
    by (auto split: list.splits if_splits)
  then obtain m where "t = m @ r" "set m \<subseteq> set cls"
    using star_sound by blast
  then have "s = (c # m) @ r \<and> piece_lang p (c # m)"
    using s c Plus by simp
  then show ?thesis by blast
qed

lemma match_seq_sound:
  "r \<in> set (match_seq ps s) \<Longrightarrow> \<exists>m. s = m @ r \<and> seq_lang ps m"
proof (induction ps arbitrary: s)
  case Nil
  then show ?case by simp
next
  case (Cons p ps)
  then obtain s' where "s' \<in> set (match_piece p s)" and "r \<in> set (match_seq ps s')"
    by auto
  then obtain a b where "s = a @ s'" "piece_lang p a" "s' = b @ r" "seq_lang ps b"
    using match_piece_sound Cons.IH by blast
  then have "s = (a @ b) @ r \<and> seq_lang (p # ps) (a @ b)"
    by auto
  then show ?case by blast
qed

lemma match_here_sound:
  assumes "match_here re s = Some r"
  shows "\<exists>m ps. ps \<in> set re \<and> s = m @ r \<and> seq_lang ps m"
proof -
  from assms obtain rs where "concat (map (\<lambda>ps. match_seq ps s) re) = r # rs"
    by (auto simp add: match_here_def split: list.splits)
  then have "r \<in> set (concat (map (\<lambda>ps. match_seq ps s) re))"
    by simp
  then obtain ps where "ps \<in> set re" "r \<in> set (match_seq ps s)"
    by auto
  then show ?thesis using match_seq_sound by blast
qed

lemma FindAllString_sound:
  "t \<in> set (FindAllString re b s) \<Longrightarrow> t = [] \<or> (\<exists>ps\<in>set re. seq_lang ps t)"
proof (induction re b s rule: FindAllString.induct)
  case (1 re after_match s)
  show ?case
  proof (cases "match_here re s")
    case None
    with "1.prems" obtain c s' where s: "s = c # s'" and "t \<in> set (FindAllString re False s')"
      by (subst (asm) FindAllString.simps) (auto split: list.splits)
    then show ?thesis using "1.IH"(1) [OF None s] by simp
  next
    case (Some rest)
    obtain m ps where ps: "ps \<in> set re" and m: "s = m @ rest" "seq_lang ps m"
      using match_here_sound [OF Some] by blast
    show ?thesis
    proof (cases "length rest < length s")
      case True
      have "take (length s - length rest) s = m" using m(1) by simp
      with "1.prems" Some True have "t = m \<or> t \<in> set (FindAllString re True rest)"
        by (subst (asm) FindAllString.simps) auto
      then show ?thesis
        using "1.IH"(2) [OF Some True] ps m(2) by blast
    next
      case False
      with "1.prems" Some have "t = [] \<or> (\<exists>c s'. s = c # s' \<and> t \<in> set (FindAllString re False s'))"
        by (subst (asm) FindAllString.simps) (auto split: if_splits list.splits)
      then show ?thesis
        using "1.IH"(3) [OF Some False] by blast
    qed
  qed
qed

lemma termRegex_shape:
  assumes "ps \<in> set termRegex" and "seq_lang ps t"
  shows "term_shape t \<and> t \<noteq> []"
proof -
  have no_x: "CHR ''x'' \<notin> set m \<and> CHR ''^'' \<notin> set m"
    if "set m \<subseteq> set ''+-'' \<or> set m \<subseteq> set ''-+'' \<or> set m \<subseteq> set ''0123456789'' \<or> set m \<subseteq> set ''.''"
    for m :: string
    using that by auto
  have digits: "list_all isDigit m" if "set m \<subseteq> set ''0123456789''" for m
    using that unfolding isDigit_def list_all_iff by blast
  from assms(1) consider
      (var) "ps = [Opt ''+-'', Star ''0123456789'', Opt ''.'', Star ''0123456789'', One ''x'',
                  Opt ''^'', Star ''0123456789'']"
    | (const) "ps = [Opt ''-+'', Star ''0123456789'', Opt ''.'', Plus ''0123456789'']"
    by (auto simp add: termRegex_def)
  then show ?thesis
  proof cases
    case var
    with assms(2) obtain m1 m2 m3 m4 m5 m6 m7 where
      t: "t = m1 @ m2 @ m3 @ m4 @ m5 @ m6 @ m7"
      and m: "set m1 \<subseteq> set ''+-''" "set m2 \<subseteq> set ''0123456789''" "set m3 \<subseteq> set ''.''"
        "set m4 \<subseteq> set ''0123456789''" "length m5 = 1 \<and> set m5 \<subseteq> set ''x''"
        "length m6 \<le> 1 \<and> set m6 \<subseteq> set ''^''" "set m7 \<subseteq> set ''0123456789''"
      by auto
    define pre where "pre = m1 @ m2 @ m3 @ m4"
    have pre: "CHR ''x'' \<notin> set pre \<and> CHR ''^'' \<notin> set pre"
      using no_x [of m1] no_x [of m2] no_x [of m3] no_x [of m4] m(1-4)
      unfolding pre_def by simp
    have m5: "m5 = ''x''"
      using m(5) by (cases m5) auto
    have m6: "m6 = [] \<or> m6 = ''^''"
      using m(6) by (cases m6) auto
    have "t = pre @ ''x'' @ m7 \<or> t = pre @ ''x^'' @ m7"
      using t m5 m6 by (auto simp add: pre_def)
    then have "term_shape t"
      unfolding term_shape_def using pre digits [OF m(7)] by blast
    moreover have "t \<noteq> []" using t m5 by simp
    ultimately show ?thesis by simp
  next
    case const
    with assms(2) obtain m1 m2 m3 m4 where
      t: "t = m1 @ m2 @ m3 @ m4"
      and m: "set m1 \<subseteq> set ''-+''" "set m2 \<subseteq> set ''0123456789''" "set m3 \<subseteq> set ''.''"
        "m4 \<noteq> [] \<and> set m4 \<subseteq> set ''0123456789''"
      by auto
    have "CHR ''x'' \<notin> set t \<and> CHR ''^'' \<notin> set t"
      using no_x [of m1] no_x [of m2] no_x [of m3] no_x [of m4] m
      unfolding t by simp
    then have "term_shape t"
      unfolding term_shape_def by (intro exI [of _ t] exI [of _ "[]"]) simp
    moreover have "t \<noteq> []" using t m(4) by simp
    ultimately show ?thesis by simp
  qed
qed

lemma termRegex_never_empty:
  assumes "match_here termRegex s = Some rest"
  shows "length rest < length s"
proof -
  obtain m ps where "ps \<in> set termRegex" "s = m @ rest" "seq_lang ps m"
    using match_here_sound [OF assms] by blast
  then show ?thesis using termRegex_shape [of ps m] by simp
qed

lemma terms_shape:
  assumes "t \<in> set (FindAllString termRegex b s)"
  shows "term_shape t"
proof -
  have "term_shape []"
    unfolding term_shape_def by (intro exI [of _ "[]"]) simp
  then show ?thesis
    using FindAllString_sound [OF assms] termRegex_shape by blast
qed

subsection \<open>The searches of the code in a term\<close>

lemma Index_skip:
  "a \<notin> set pre \<Longrightarrow>
   Index (pre @ s) (a # sep) = map_option (\<lambda>m. length pre + m) (Index s (a # sep))"
proof (induction pre)
  case Nil
  then show ?case by (simp add: option.map_ident)
next
  case (Cons c pre)
  then have "\<not> prefix (a # sep) (c # pre @ s)" by auto
  then show ?case
    using Cons by (simp add: option.map_comp comp_def)
qed

lemma Index_none: "a \<notin> set s \<Longrightarrow> Index s (a # sep) = None"
  using Index_skip [of a s "[]" sep] by simp

lemma Index_here: "Index ((a # sep) @ rest) (a # sep) = Some 0"
  by simp

lemma Index_once:
  "a \<notin> set pre \<Longrightarrow> Index (pre @ (a # sep) @ rest) (a # sep) = Some (length pre)"
  using Index_skip [of a pre "(a # sep) @ rest" sep] by simp

lemma Contains_char: "Contains s [c] = (c \<in> set s)"
  unfolding Contains_def by (induction s) auto

lemma Split_no_sep: "a \<notin> set s \<Longrightarrow> Split s (a # sep) = [s]"
  by (subst Split.simps) (simp add: Index_none)

lemma Split_once:
  assumes "a \<notin> set pre" and "a \<notin> set rest"
  shows "Split (pre @ (a # sep) @ rest) (a # sep) = [pre, rest]"
proof -
  have "Split (pre @ (a # sep) @ rest) (a # sep)
        = take (length pre) (pre @ (a # sep) @ rest)
          # Split (drop (length pre + length (a # sep)) (pre @ (a # sep) @ rest)) (a # sep)"
    by (subst Split.simps) (simp add: Index_once [OF assms(1)] del: append.simps)
  also have "\<dots> = pre # Split rest (a # sep)"
    by simp
  finally show ?thesis
    using Split_no_sep [OF assms(2)] by simp
qed

lemma isDigit_not_special:
  "isDigit c \<Longrightarrow> c \<noteq> CHR ''x'' \<and> c \<noteq> CHR ''^'' \<and> c \<noteq> CHR ''+'' \<and> c \<noteq> CHR ''-'' \<and> c \<noteq> CHR ''.''"
  by (auto simp add: isDigit_def)

lemma digits_no_special:
  "list_all isDigit ds \<Longrightarrow> CHR ''x'' \<notin> set ds \<and> CHR ''^'' \<notin> set ds"
  using isDigit_not_special by (auto simp add: list_all_iff)

text \<open>The three shapes of a term, and what the searches of the code find in each.\<close>

lemma shape_power:
  assumes "CHR ''x'' \<notin> set pre" "CHR ''^'' \<notin> set pre" "list_all isDigit d3"
    and t: "t = pre @ ''x^'' @ d3"
  shows "Contains t ''x^''" and "CHR ''^'' \<in> set t" and "CHR ''x'' \<in> set t"
    and "Split t ''^'' = [pre @ ''x'', d3]"
    and "Split t ''x^'' = [pre, d3]"
    and "exponent_text t = d3"
    and "magnitude_text t = pre"
proof -
  have d: "CHR ''x'' \<notin> set d3" "CHR ''^'' \<notin> set d3"
    using digits_no_special [OF assms(3)] by simp_all
  show "Contains t ''x^''"
    unfolding Contains_def t using Index_once [OF assms(1), of "''^''" d3] by simp
  show "CHR ''^'' \<in> set t" and "CHR ''x'' \<in> set t"
    unfolding t by simp_all
  have "CHR ''^'' \<notin> set (pre @ ''x'')" using assms(2) by simp
  from Split_once [OF this d(2), of "[]"]
  show "Split t ''^'' = [pre @ ''x'', d3]"
    unfolding t by simp
  from Split_once [OF assms(1) d(1), of "''^''"]
  show "Split t ''x^'' = [pre, d3]"
    unfolding t by simp
  have "dropWhile (\<lambda>c. c \<noteq> CHR ''^'') ((pre @ ''x'') @ CHR ''^'' # d3) = CHR ''^'' # d3"
    using assms(2) by (subst dropWhile_append2) auto
  then show "exponent_text t = d3"
    unfolding t exponent_text_def by simp
  have "takeWhile (\<lambda>c. c \<noteq> CHR ''x'') (pre @ CHR ''x'' # CHR ''^'' # d3) = pre"
    using assms(1) by (subst takeWhile_append2) auto
  then show "magnitude_text t = pre"
    unfolding t magnitude_text_def by simp
qed

lemma shape_bare:
  assumes "CHR ''x'' \<notin> set pre" "CHR ''^'' \<notin> set pre" "list_all isDigit d3"
    and t: "t = pre @ ''x'' @ d3"
  shows "\<not> Contains t ''x^''" and "CHR ''^'' \<notin> set t" and "CHR ''x'' \<in> set t"
    and "Contains t ''x''"
    and "magnitude_text t = pre"
    and "d3 = [] \<Longrightarrow> TrimSuffix t ''x'' = pre"
    and "d3 \<noteq> [] \<Longrightarrow> TrimSuffix t ''x'' = t"
proof -
  have d: "CHR ''x'' \<notin> set d3" "CHR ''^'' \<notin> set d3"
    using digits_no_special [OF assms(3)] by simp_all
  show hat: "CHR ''^'' \<notin> set t" and x: "CHR ''x'' \<in> set t"
    unfolding t using assms(2) d(2) by simp_all
  have "Index (CHR ''x'' # d3) ''x^'' = None"
  proof (cases d3)
    case Nil
    then show ?thesis by simp
  next
    case (Cons c ds)
    then have "c \<noteq> CHR ''^''" using d(2) by auto
    then show ?thesis
      using Cons Index_none [OF d(1), of "''^''"] by simp
  qed
  then show "\<not> Contains t ''x^''"
    unfolding Contains_def t using Index_skip [OF assms(1), of "CHR ''x'' # d3" "''^''"] by simp
  show "Contains t ''x''"
    using x by (simp add: Contains_char)
  have "takeWhile (\<lambda>c. c \<noteq> CHR ''x'') (pre @ CHR ''x'' # d3) = pre"
    using assms(1) by (subst takeWhile_append2) auto
  then show "magnitude_text t = pre"
    unfolding t magnitude_text_def by simp
  show "TrimSuffix t ''x'' = pre" if "d3 = []"
    using that unfolding t TrimSuffix_def by (simp add: suffix_def)
  show "TrimSuffix t ''x'' = t" if "d3 \<noteq> []"
  proof -
    have "last t = last d3" using that unfolding t by simp
    moreover have "last d3 \<in> set d3" using that by simp
    ultimately have "last t \<noteq> CHR ''x''" using d(1) by auto
    moreover have "t \<noteq> []" unfolding t by simp
    ultimately have "\<not> suffix ''x'' t"
      by (auto simp add: suffix_def)
    then show ?thesis by (simp add: TrimSuffix_def)
  qed
qed

lemma shape_const:
  assumes "CHR ''x'' \<notin> set t" "CHR ''^'' \<notin> set t"
  shows "\<not> Contains t ''x^''" and "\<not> Contains t ''x''" and "magnitude_text t = t"
proof -
  show "\<not> Contains t ''x^''"
    unfolding Contains_def using Index_none [OF assms(1), of "''^''"] by simp
  show "\<not> Contains t ''x''"
    using assms(1) by (simp add: Contains_char)
  show "magnitude_text t = t"
    unfolding magnitude_text_def using assms(1) by auto
qed

subsection \<open>Numbers\<close>

lemma split_sign_digits: "list_all isDigit e \<Longrightarrow> split_sign e = (False, e)"
  using isDigit_not_special by (cases e) (auto simp add: split_sign_def)

lemma Atoi_digits:
  assumes "list_all isDigit e"
  shows "Atoi e = (if e = [] \<or> int (nat_of_digits e) > 2 ^ 63 - 1 then None
                   else Some (int (nat_of_digits e)))"
proof -
  have "- (2 ^ 63) \<le> int (nat_of_digits e)"
    by (rule order_trans [of _ 0]) simp_all
  then show ?thesis
    using assms by (simp add: Atoi_def split_sign_digits Let_def)
qed

lemma split_sign_set: "set (snd (split_sign s)) \<subseteq> set s"
  by (cases s) (auto simp add: split_sign_def)

lemma split_sign_no_x: "CHR ''x'' \<in> set s \<Longrightarrow> CHR ''x'' \<in> set (snd (split_sign s))"
  by (cases s) (auto simp add: split_sign_def)

lemma decimal_syntax_no_x:
  assumes "decimal_syntax s"
  shows "CHR ''x'' \<notin> set s"
proof
  assume "CHR ''x'' \<in> set s"
  define r where "r = snd (split_sign s)"
  define r1 where "r1 = dropWhile isDigit r"
  define r2 where "r2 = (case r1 of [] \<Rightarrow> r1 | c # t \<Rightarrow> if c = CHR ''.'' then t else r1)"
  have r3: "dropWhile isDigit r2 = []"
    using assms unfolding decimal_syntax_def r_def r1_def r2_def
    by (simp add: Let_def split_beta)
  have notdig: "\<not> isDigit (CHR ''x'')" by (simp add: isDigit_def)
  have "CHR ''x'' \<in> set r"
    using \<open>CHR ''x'' \<in> set s\<close> split_sign_no_x unfolding r_def by simp
  then have "CHR ''x'' \<in> set (takeWhile isDigit r @ r1)"
    unfolding r1_def by simp
  then have "CHR ''x'' \<in> set r1"
    using notdig set_takeWhileD [of "CHR ''x''" isDigit r] by auto
  then have "CHR ''x'' \<in> set r2"
    unfolding r2_def by (cases r1) (auto split: if_splits)
  then have "CHR ''x'' \<in> set (takeWhile isDigit r2 @ dropWhile isDigit r2)"
    by simp
  then show False
    using notdig set_takeWhileD [of "CHR ''x''" isDigit r2] r3 by auto
qed

lemma ParseFloat_value: "ParseFloat s = Some v \<Longrightarrow> v = decimal_value s \<and> decimal_syntax s"
  by (auto simp add: ParseFloat_def split: if_splits)

lemma ParseFloat_x: "CHR ''x'' \<in> set s \<Longrightarrow> ParseFloat s = None"
  using decimal_syntax_no_x by (auto simp add: ParseFloat_def)

lemma ParseFloat_one: "ParseFloat ''1'' = Some 1" "ParseFloat ''-1'' = Some (- 1)"
  by (simp_all add: ParseFloat_def decimal_syntax_def decimal_value_def split_sign_def
      isDigit_def nat_of_digits_def digit_val_def)

lemma ParseFloat_default:
  assumes "ParseFloat (default_coeffStr pre) = Some v"
  shows "v = (if pre = [] \<or> pre = ''+'' then 1 else if pre = ''-'' then - 1
              else decimal_value pre)"
  using assms ParseFloat_value [of pre v]
  by (auto simp add: default_coeffStr_def ParseFloat_one split: if_splits)

subsection \<open>The two loops\<close>

text \<open>One step of the first loop, on a term of the pattern.\<close>

lemma maxDegree_loop_step:
  assumes "term_shape t" and "0 \<le> m"
  shows "maxDegree_loop (t # ts) m =
     (if CHR ''^'' \<in> set t then
        (if exponent_text t = [] \<or> int (nat_of_digits (exponent_text t)) > 2 ^ 63 - 1
         then Inl (InvalidDegree t)
         else maxDegree_loop ts (max m (int (term_power t))))
      else maxDegree_loop ts (max m (int (term_power t))))"
proof -
  from assms obtain pre d3 where
    pre: "CHR ''x'' \<notin> set pre" "CHR ''^'' \<notin> set pre" and d3: "list_all isDigit d3"
    and t: "t = pre \<or> t = pre @ ''x'' @ d3 \<or> t = pre @ ''x^'' @ d3"
    unfolding term_shape_def by blast
  from t consider (const) "t = pre" | (bare) "t = pre @ ''x'' @ d3" | (power) "t = pre @ ''x^'' @ d3"
    by blast
  then show ?thesis
  proof cases
    case const
    then have "CHR ''x'' \<notin> set t" "CHR ''^'' \<notin> set t" using pre by simp_all
    then show ?thesis
      using shape_const [of t] assms(2) by (simp add: term_power_def max_def)
  next
    case bare
    note s = shape_bare [OF pre d3 bare]
    show ?thesis
      using s(1-4) by (auto simp add: term_power_def max_def)
  next
    case power
    note s = shape_power [OF pre d3 power]
    show ?thesis
      using s(1-4,6) d3 by (simp add: term_power_def max_def Atoi_digits)
  qed
qed

lemma maxDegree_loop_errors:
  "maxDegree_loop ts m = Inl e \<Longrightarrow> kind e = FormatError"
  by (induction ts arbitrary: m) (auto simp add: Let_def split: if_splits option.splits)

lemma maxDegree_loop_result:
  assumes "\<forall>t\<in>set ts. term_shape t" and "maxDegree_loop ts m = Inr d"
    and "0 \<le> m" and "m \<le> 2 ^ 63 - 1"
  shows "d = Max (insert m ((\<lambda>t. int (term_power t)) ` set ts)) \<and> d \<le> 2 ^ 63 - 1"
  using assms
proof (induction ts arbitrary: m)
  case Nil
  then show ?case by simp
next
  case (Cons t ts)
  have shape: "term_shape t" using Cons.prems(1) by simp
  have pw: "int (term_power t) \<le> 2 ^ 63 - 1"
    and next_loop: "maxDegree_loop ts (max m (int (term_power t))) = Inr d"
  proof -
    have *: "int (term_power t) \<le> 2 ^ 63 - 1 \<and> maxDegree_loop ts (max m (int (term_power t))) = Inr d"
    proof (cases "CHR ''^'' \<in> set t")
      case True
      then show ?thesis
        using Cons.prems(2) unfolding maxDegree_loop_step [OF shape Cons.prems(3)]
        by (auto simp add: term_power_def split: if_splits)
    next
      case False
      then have "term_power t \<le> 1" by (simp add: term_power_def)
      then show ?thesis
        using False Cons.prems(2) unfolding maxDegree_loop_step [OF shape Cons.prems(3)] by simp
    qed
    from * show "int (term_power t) \<le> 2 ^ 63 - 1" by simp
    from * show "maxDegree_loop ts (max m (int (term_power t))) = Inr d" by simp
  qed
  have ih: "d = Max (insert (max m (int (term_power t))) ((\<lambda>t. int (term_power t)) ` set ts))
        \<and> d \<le> 2 ^ 63 - 1"
  proof (rule Cons.IH [OF _ next_loop])
    show "\<forall>t\<in>set ts. term_shape t" using Cons.prems(1) by simp
    show "0 \<le> max m (int (term_power t))" using Cons.prems(3) by simp
    show "max m (int (term_power t)) \<le> 2 ^ 63 - 1" using Cons.prems(4) pw by simp
  qed
  have eq: "Max (insert (max m (int (term_power t))) ((\<lambda>t. int (term_power t)) ` set ts))
        = Max (insert m ((\<lambda>t. int (term_power t)) ` set (t # ts)))"
  proof -
    have fin: "finite ((\<lambda>t. int (term_power t)) ` set ts)" by simp
    show ?thesis
      by (cases "set ts = {}") (simp_all add: fin max.assoc max.left_commute)
  qed
  have "d = Max (insert m ((\<lambda>t. int (term_power t)) ` set (t # ts)))"
    using ih eq by (simp only:)
  then show ?case using ih by blast
qed

lemma add_at_Inr:
  "add_at cs i v = Inr mid \<Longrightarrow> 0 \<le> i \<and> nat i < length cs \<and> mid = cs[nat i := cs ! nat i + v]"
  by (auto simp add: add_at_def split: if_splits)

text \<open>One step of the second loop, on a term of the pattern, when the loop succeeds.\<close>

lemma coefficients_loop_step:
  assumes "term_ok t" and "coefficients_loop (t # ts) cs = Inr cs'"
  shows "\<exists>mid. add_at cs (int (term_power t)) (term_coefficient t) = Inr mid
           \<and> coefficients_loop ts mid = Inr cs'"
proof -
  from assms(1) obtain pre d3 where
    pre: "CHR ''x'' \<notin> set pre" "CHR ''^'' \<notin> set pre" and d3: "list_all isDigit d3"
    and t: "t = pre \<or> t = pre @ ''x'' @ d3 \<or> t = pre @ ''x^'' @ d3" and ne: "t \<noteq> []"
    unfolding term_ok_def term_shape_def by blast
  from t consider (const) "t = pre" | (bare) "t = pre @ ''x'' @ d3" | (power) "t = pre @ ''x^'' @ d3"
    by blast
  then show ?thesis
  proof cases
    case const
    then have nx: "CHR ''x'' \<notin> set t" "CHR ''^'' \<notin> set t" using pre by simp_all
    note s = shape_const [OF nx]
    from assms(2) obtain coeff mid where pf: "ParseFloat t = Some coeff"
      and add: "add_at cs 0 coeff = Inr mid" and rest: "coefficients_loop ts mid = Inr cs'"
      using ne s(1,2) by (auto split: option.splits sum.splits)
    have "coeff = term_coefficient t"
      using ParseFloat_value [OF pf] nx(1) s(3) by (simp add: term_coefficient_def)
    moreover have "term_power t = 0" using nx(1) by (simp add: term_power_def)
    ultimately show ?thesis using add rest by simp
  next
    case bare
    note s = shape_bare [OF pre d3 bare]
    have d3_empty: "d3 = []"
    proof (rule ccontr)
      assume "d3 \<noteq> []"
      then have trim: "TrimSuffix t ''x'' = t" by (rule s(7))
      have "default_coeffStr t = t"
        using s(3) by (auto simp add: default_coeffStr_def)
      then have "ParseFloat (default_coeffStr (TrimSuffix t ''x'')) = None"
        using trim ParseFloat_x [OF s(3)] by simp
      then show False
        using assms(2) ne s(1,4) by (simp add: Let_def)
    qed
    then have trim: "TrimSuffix t ''x'' = pre" by (rule s(6))
    from assms(2) obtain coeff mid where pf: "ParseFloat (default_coeffStr pre) = Some coeff"
      and add: "add_at cs 1 coeff = Inr mid" and rest: "coefficients_loop ts mid = Inr cs'"
      using ne s(1,4) trim by (auto simp add: Let_def split: option.splits sum.splits)
    have "coeff = term_coefficient t"
      using ParseFloat_default [OF pf] s(3,5) by (simp add: term_coefficient_def)
    moreover have "term_power t = 1" using s(2,3) by (simp add: term_power_def)
    ultimately show ?thesis using add rest by simp
  next
    case power
    note s = shape_power [OF pre d3 power]
    from assms(2) obtain coeff degree mid where pf: "ParseFloat (default_coeffStr pre) = Some coeff"
      and deg: "Atoi d3 = Some degree"
      and add: "add_at cs degree coeff = Inr mid" and rest: "coefficients_loop ts mid = Inr cs'"
      using ne s(1,5) by (auto simp add: Let_def split: option.splits sum.splits if_splits)
    have "coeff = term_coefficient t"
      using ParseFloat_default [OF pf] s(3,7) by (simp add: term_coefficient_def)
    moreover have "degree = int (term_power t)"
      using deg s(2,3,6) unfolding Atoi_digits [OF d3]
      by (simp add: term_power_def split: if_splits)
    ultimately show ?thesis using add rest by simp
  qed
qed

lemma coefficients_loop_result:
  assumes "\<forall>t\<in>set ts. term_ok t" and "coefficients_loop ts cs = Inr cs'"
  shows "length cs' = length cs \<and>
         (\<forall>k<length cs. cs' ! k =
            cs ! k + (\<Sum>t\<leftarrow>filter (\<lambda>t. term_power t = k) ts. term_coefficient t))"
  using assms
proof (induction ts arbitrary: cs)
  case Nil
  then show ?case by simp
next
  case (Cons t ts)
  have ok: "term_ok t" and oks: "\<forall>t\<in>set ts. term_ok t"
    using Cons.prems(1) by simp_all
  obtain mid where add: "add_at cs (int (term_power t)) (term_coefficient t) = Inr mid"
    and rest: "coefficients_loop ts mid = Inr cs'"
    using coefficients_loop_step [OF ok Cons.prems(2)] by blast
  have p: "term_power t < length cs"
    and mid: "mid = cs[term_power t := cs ! term_power t + term_coefficient t]"
    using add_at_Inr [OF add] by simp_all
  have ih: "length cs' = length mid \<and>
         (\<forall>k<length mid. cs' ! k =
            mid ! k + (\<Sum>t\<leftarrow>filter (\<lambda>t. term_power t = k) ts. term_coefficient t))"
    by (rule Cons.IH [OF oks rest])
  have len: "length mid = length cs" using mid by simp
  have "cs' ! k = cs ! k + (\<Sum>t\<leftarrow>filter (\<lambda>t. term_power t = k) (t # ts). term_coefficient t)"
    if k: "k < length cs" for k
  proof -
    have "cs' ! k = mid ! k + (\<Sum>t\<leftarrow>filter (\<lambda>t. term_power t = k) ts. term_coefficient t)"
      using ih k len by simp
    moreover have "mid ! k = cs ! k + (if term_power t = k then term_coefficient t else 0)"
      using mid k by (simp add: nth_list_update)
    ultimately show ?thesis by simp
  qed
  then show ?case using ih len by simp
qed

lemma terms_ok:
  assumes "t \<in> set (FindAllString termRegex b s)"
  shows "term_ok t"
proof -
  have "t \<noteq> []"
  proof
    assume "t = []"
    with assms have "[] \<in> set (FindAllString termRegex b s)" by simp
    then show False
    proof (induction termRegex b s rule: FindAllString.induct)
      case (1 after_match s)
      show ?case
      proof (cases "match_here termRegex s")
        case None
        with "1.prems" obtain c s' where s: "s = c # s'"
          and "[] \<in> set (FindAllString termRegex False s')"
          by (subst (asm) FindAllString.simps) (auto split: list.splits)
        then show ?thesis using "1.hyps"(1) [OF None s] by simp
      next
        case (Some rest)
        have lt: "length rest < length s" using termRegex_never_empty [OF Some] .
        with "1.prems" Some have "[] \<in> set (FindAllString termRegex True rest)"
          by (subst (asm) FindAllString.simps) auto
        then show ?thesis using "1.hyps"(2) [OF Some lt] by simp
      qed
    qed
  qed
  then show ?thesis using terms_shape [OF assms] by (simp add: term_ok_def)
qed

lemma make_float64_Inr:
  "make_float64 n = Inr z \<Longrightarrow> 0 \<le> n \<and> z = replicate (nat n) 0"
  by (auto simp add: make_float64_def split: if_splits)

lemma int64_add_in_range:
  "0 \<le> d \<Longrightarrow> d \<le> 2 ^ 63 - 1 \<Longrightarrow> 0 \<le> int64_add d 1 \<Longrightarrow> int64_add d 1 = d + 1"
  unfolding int64_add_def by (cases "d = 2 ^ 63 - 1") (simp_all add: mod_pos_pos_trivial)

lemma Max_int_nat:
  "finite A \<Longrightarrow> Max (insert 0 (int ` A)) = int (Max (insert 0 A))"
  by (rule mono_Max_commute [symmetric, of int "insert 0 A", simplified])
     (auto simp add: mono_def)

lemma ParsePolynomial_coefficients_general:
  assumes "ParsePolynomial str = Inr cs"
  defines "ts \<equiv> FindAllString termRegex False (ReplaceAll str CHR '' '' [])"
  shows "length cs = Max (insert 0 (term_power ` set ts)) + 1"
    and "\<forall>k<length cs. cs ! k = (\<Sum>t\<leftarrow>filter (\<lambda>t. term_power t = k) ts. term_coefficient t)"
proof -
  from assms(1) obtain d z where d: "maxDegree_loop ts 0 = Inr d"
    and z: "make_float64 (int64_add d 1) = Inr z" and cl: "coefficients_loop ts z = Inr cs"
    unfolding ParsePolynomial_def ts_def
    by (auto simp add: Let_def split: if_splits sum.splits)
  have ok: "\<forall>t\<in>set ts. term_ok t"
    unfolding ts_def using terms_ok by blast
  then have shape: "\<forall>t\<in>set ts. term_shape t"
    by (simp add: term_ok_def)
  have "d = Max (insert 0 ((\<lambda>t. int (term_power t)) ` set ts)) \<and> d \<le> 2 ^ 63 - 1"
    by (rule maxDegree_loop_result [OF shape d]) simp_all
  then have dmax: "d = Max (insert 0 ((\<lambda>t. int (term_power t)) ` set ts))"
    and dle: "d \<le> 2 ^ 63 - 1"
    by blast+
  have "(\<lambda>t. int (term_power t)) ` set ts = int ` (term_power ` set ts)"
    by auto
  then have dnat: "d = int (Max (insert 0 (term_power ` set ts)))"
    using dmax Max_int_nat [of "term_power ` set ts"] by simp
  then have d0: "0 \<le> d" by simp
  have n: "0 \<le> int64_add d 1" and zr: "z = replicate (nat (int64_add d 1)) 0"
    using make_float64_Inr [OF z] by simp_all
  have "int64_add d 1 = d + 1"
    using int64_add_in_range [OF d0 dle n] .
  then have zlen: "length z = Max (insert 0 (term_power ` set ts)) + 1"
    using zr dnat by (simp add: nat_add_distrib)
  have res: "length cs = length z \<and>
         (\<forall>k<length z. cs ! k =
            z ! k + (\<Sum>t\<leftarrow>filter (\<lambda>t. term_power t = k) ts. term_coefficient t))"
    by (rule coefficients_loop_result [OF ok cl])
  show "length cs = Max (insert 0 (term_power ` set ts)) + 1"
    using res zlen by simp
  show "\<forall>k<length cs. cs ! k = (\<Sum>t\<leftarrow>filter (\<lambda>t. term_power t = k) ts. term_coefficient t)"
    using res zr by simp
qed

subsection \<open>Examples\<close>

lemmas regex_eval = FindAllString.simps match_here_def termRegex_def

lemmas string_eval = Contains_def Split.simps TrimSuffix_def suffix_to_prefix
  default_coeffStr_def split_sign_def isDigit_def nat_of_digits_def digit_val_def

lemmas float_eval = ParseFloat_def decimal_syntax_def decimal_value_def

lemma ParsePolynomial_steps:
  assumes "FindAllString termRegex False (ReplaceAll str CHR '' '' []) = ts"
    and "ts \<noteq> []" and "concat ts = ReplaceAll str CHR '' '' []"
    and "maxDegree_loop ts 0 = Inr d"
    and "make_float64 (int64_add d 1) = Inr z"
    and "coefficients_loop ts z = Inr cs"
  shows "ParsePolynomial str = Inr cs"
  using assms by (simp add: ParsePolynomial_def Join_def)

lemma make_float64_small:
  "make_float64 (int64_add 0 1) = Inr [0]"
  "make_float64 (int64_add 1 1) = Inr [0, 0]"
  "make_float64 (int64_add 2 1) = Inr [0, 0, 0]"
  by (simp_all add: make_float64_def maxAlloc_def int64_add_def numeral_2_eq_2 numeral_3_eq_3)

lemma ParseFloat_examples:
  "ParseFloat ''5'' = Some 5" "ParseFloat ''2'' = Some 2" "ParseFloat ''+1'' = Some 1"
  "ParseFloat ''-5'' = Some (- 5)" "ParseFloat ''+6'' = Some 6"
  by (simp_all add: float_eval string_eval)

lemma parse_5: "ParsePolynomial ''5'' = Inr [5]"
proof (rule ParsePolynomial_steps)
  show "FindAllString termRegex False (ReplaceAll ''5'' CHR '' '' []) = [''5'']"
    by (simp add: ReplaceAll_def regex_eval)
  show "maxDegree_loop [''5''] 0 = Inr 0"
    by (simp add: string_eval)
  show "make_float64 (int64_add 0 1) = Inr [0]"
    by (rule make_float64_small)
  show "coefficients_loop [''5''] [0] = Inr [5]"
    by (simp add: string_eval ParseFloat_examples add_at_def)
qed (simp_all add: ReplaceAll_def)

lemma parse_minus_x: "ParsePolynomial ''-x'' = Inr [0, - 1]"
proof (rule ParsePolynomial_steps)
  show "FindAllString termRegex False (ReplaceAll ''-x'' CHR '' '' []) = [''-x'']"
    by (simp add: ReplaceAll_def regex_eval)
  show "maxDegree_loop [''-x''] 0 = Inr 1"
    by (simp add: string_eval)
  show "make_float64 (int64_add 1 1) = Inr [0, 0]"
    by (rule make_float64_small)
  show "coefficients_loop [''-x''] [0, 0] = Inr [0, - 1]"
    by (simp add: string_eval ParseFloat_one add_at_def)
qed (simp_all add: ReplaceAll_def)

lemma parse_2x_1: "ParsePolynomial ''2x+1'' = Inr [1, 2]"
proof (rule ParsePolynomial_steps)
  show "FindAllString termRegex False (ReplaceAll ''2x+1'' CHR '' '' []) = [''2x'', ''+1'']"
    by (simp add: ReplaceAll_def regex_eval)
  show "maxDegree_loop [''2x'', ''+1''] 0 = Inr 1"
    by (simp add: string_eval)
  show "make_float64 (int64_add 1 1) = Inr [0, 0]"
    by (rule make_float64_small)
  show "coefficients_loop [''2x'', ''+1''] [0, 0] = Inr [1, 2]"
    by (simp add: string_eval ParseFloat_examples add_at_def)
qed (simp_all add: ReplaceAll_def)

lemma parse_quadratic: "ParsePolynomial ''x^2 - 5x + 6'' = Inr [6, - 5, 1]"
proof (rule ParsePolynomial_steps)
  show "FindAllString termRegex False (ReplaceAll ''x^2 - 5x + 6'' CHR '' '' [])
        = [''x^2'', ''-5x'', ''+6'']"
    by (simp add: ReplaceAll_def regex_eval)
  show "maxDegree_loop [''x^2'', ''-5x'', ''+6''] 0 = Inr 2"
    by (simp add: string_eval Atoi_def)
  show "make_float64 (int64_add 2 1) = Inr [0, 0, 0]"
    by (rule make_float64_small)
  show "coefficients_loop [''x^2'', ''-5x'', ''+6''] [0, 0, 0] = Inr [6, - 5, 1]"
    by (simp add: string_eval Atoi_def ParseFloat_one ParseFloat_examples add_at_def)
qed (simp_all add: ReplaceAll_def)

lemma parse_x_2x: "ParsePolynomial ''x + 2x'' = Inr [0, 3]"
proof (rule ParsePolynomial_steps)
  show "FindAllString termRegex False (ReplaceAll ''x + 2x'' CHR '' '' []) = [''x'', ''+2x'']"
    by (simp add: ReplaceAll_def regex_eval)
  show "maxDegree_loop [''x'', ''+2x''] 0 = Inr 1"
    by (simp add: string_eval)
  show "make_float64 (int64_add 1 1) = Inr [0, 0]"
    by (rule make_float64_small)
  have "ParseFloat ''+2'' = Some 2"
    by (simp add: float_eval string_eval)
  then show "coefficients_loop [''x'', ''+2x''] [0, 0] = Inr [0, 3]"
    by (simp add: string_eval ParseFloat_one add_at_def)
qed (simp_all add: ReplaceAll_def)

lemma parse_empty: "ParsePolynomial [] = Inl InvalidFormat"
  by (simp add: ParsePolynomial_def ReplaceAll_def regex_eval)

lemma parse_x_hat: "ParsePolynomial ''x^'' = Inl (InvalidDegree ''x^'')"
proof -
  have "FindAllString termRegex False ''x^'' = [''x^'']"
    by (simp add: regex_eval)
  moreover have "maxDegree_loop [''x^''] 0 = Inl (InvalidDegree ''x^'')"
    by (simp add: string_eval Atoi_def)
  ultimately show ?thesis
    by (simp add: ParsePolynomial_def ReplaceAll_def Join_def)
qed

text \<open>
  The pattern takes \<open>x^1.5\<close> for the two terms \<open>x^1\<close> and \<open>.5\<close>, so this input parses,
  to \<open>x + 0.5\<close>.
\<close>

lemma parse_fraction_exponent: "ParsePolynomial ''x^1.5'' = Inr [1 / 2, 1]"
proof (rule ParsePolynomial_steps)
  show "FindAllString termRegex False (ReplaceAll ''x^1.5'' CHR '' '' []) = [''x^1'', ''.5'']"
    by (simp add: ReplaceAll_def regex_eval)
  show "maxDegree_loop [''x^1'', ''.5''] 0 = Inr 1"
    by (simp add: string_eval Atoi_def)
  show "make_float64 (int64_add 1 1) = Inr [0, 0]"
    by (rule make_float64_small)
  have "ParseFloat ''.5'' = Some (1 / 2)"
    by (simp add: float_eval string_eval)
  then show "coefficients_loop [''x^1'', ''.5''] [0, 0] = Inr [1 / 2, 1]"
    by (simp add: string_eval Atoi_def ParseFloat_one add_at_def)
qed (simp_all add: ReplaceAll_def)

text \<open>
  An exponent of \<open>2\<^sup>6\<^sup>3 - 1\<close> parses as an \<open>int\<close>; \<open>maxDegree+1\<close> then wraps around to a
  negative length, and \<open>make\<close> panics.
\<close>

lemma parse_huge_exponent:
  "ParsePolynomial ''x^9223372036854775807'' = Inl PanicMakeslice"
proof -
  have "FindAllString termRegex False ''x^9223372036854775807'' = [''x^9223372036854775807'']"
    by (simp add: regex_eval)
  moreover have "maxDegree_loop [''x^9223372036854775807''] 0 = Inr (2 ^ 63 - 1)"
    by (simp add: string_eval Atoi_def)
  moreover have "make_float64 (int64_add (2 ^ 63 - 1) 1) = Inl PanicMakeslice"
    by (simp add: make_float64_def int64_add_def)
  ultimately show ?thesis
    by (simp add: ParsePolynomial_def ReplaceAll_def Join_def)
qed

subsection \<open>Format errors\<close>

lemma shape_exponent:
  assumes "term_shape t" and "CHR ''^'' \<in> set t"
  shows "list_all isDigit (exponent_text t)"
proof -
  from assms(1) obtain pre d3 where
    pre: "CHR ''x'' \<notin> set pre" "CHR ''^'' \<notin> set pre" and d3: "list_all isDigit d3"
    and t: "t = pre \<or> t = pre @ ''x'' @ d3 \<or> t = pre @ ''x^'' @ d3"
    unfolding term_shape_def by blast
  have "CHR ''^'' \<notin> set d3" using digits_no_special [OF d3] by simp
  with t assms(2) pre(2) have "t = pre @ ''x^'' @ d3" by auto
  then show ?thesis using shape_power(6) [OF pre d3] d3 by simp
qed

lemma maxDegree_loop_malformed:
  assumes "\<forall>t\<in>set ts. term_shape t" and "0 \<le> m" and "\<exists>t\<in>set ts. malformed_exponent t"
  shows "\<exists>e. maxDegree_loop ts m = Inl e"
  using assms
proof (induction ts arbitrary: m)
  case Nil
  then show ?case by simp
next
  case (Cons t ts)
  have shape: "term_shape t" using Cons.prems(1) by simp
  note step = maxDegree_loop_step [OF shape Cons.prems(2), of ts]
  show ?case
  proof (cases "malformed_exponent t")
    case True
    then have hat: "CHR ''^'' \<in> set t" and "Atoi (exponent_text t) = None"
      by (simp_all add: malformed_exponent_def)
    then have "exponent_text t = [] \<or> int (nat_of_digits (exponent_text t)) > 2 ^ 63 - 1"
      unfolding Atoi_digits [OF shape_exponent [OF shape hat]] by (simp split: if_splits)
    then show ?thesis using step hat by auto
  next
    case False
    then have later: "\<exists>t\<in>set ts. malformed_exponent t" using Cons.prems(3) by simp
    have "\<exists>e. maxDegree_loop ts (max m (int (term_power t))) = Inl e"
    proof (rule Cons.IH [OF _ _ later])
      show "\<forall>t\<in>set ts. term_shape t" using Cons.prems(1) by simp
      show "0 \<le> max m (int (term_power t))" using Cons.prems(2) by simp
    qed
    then show ?thesis using step by auto
  qed
qed

text \<open>
  C5, as the code has it. \<open>ParsePolynomial\<close> fails with a format error whenever the
  terms the pattern finds in the input without its spaces, put together again, are not
  that input; whenever the pattern finds no term; and whenever one of the terms the
  pattern finds has a malformed exponent, which for such a term is the marker \<open>^\<close>
  followed by no digit or by a number beyond the range of \<open>int\<close>. In particular it
  fails so on the empty input and on \<open>x^\<close>.
\<close>

theorem ParsePolynomial_format_errors:
  "((let cleaned = ReplaceAll str CHR '' '' [];
         ts = FindAllString termRegex False cleaned
     in ts = [] \<or> concat ts \<noteq> cleaned \<or> (\<exists>t\<in>set ts. malformed_exponent t))
     \<longrightarrow> (\<exists>e. ParsePolynomial str = Inl e \<and> kind e = FormatError))
   \<and> (\<exists>e. ParsePolynomial [] = Inl e \<and> kind e = FormatError)
   \<and> (\<exists>e. ParsePolynomial ''x^'' = Inl e \<and> kind e = FormatError)"
proof -
  define cleaned where "cleaned = ReplaceAll str CHR '' '' []"
  define ts where "ts = FindAllString termRegex False cleaned"
  have general: "\<exists>e. ParsePolynomial str = Inl e \<and> kind e = FormatError"
    if bad: "ts = [] \<or> concat ts \<noteq> cleaned \<or> (\<exists>t\<in>set ts. malformed_exponent t)"
  proof (cases "ts = [] \<or> concat ts \<noteq> cleaned")
    case True
    then show ?thesis
      unfolding ParsePolynomial_def ts_def cleaned_def
      by (auto simp add: Let_def Join_def)
  next
    case False
    with bad have mal: "\<exists>t\<in>set ts. malformed_exponent t" by blast
    have "\<forall>t\<in>set ts. term_shape t"
      unfolding ts_def using terms_shape by blast
    then obtain e where e: "maxDegree_loop ts 0 = Inl e"
      using maxDegree_loop_malformed [of ts 0] mal by auto
    then have "kind e = FormatError" by (rule maxDegree_loop_errors)
    moreover have "ParsePolynomial str = Inl e"
      using False e
      unfolding ParsePolynomial_def ts_def cleaned_def
      by (simp add: Let_def Join_def)
    ultimately show ?thesis by blast
  qed
  have "\<exists>e. ParsePolynomial [] = Inl e \<and> kind e = FormatError"
    using parse_empty by simp
  moreover have "\<exists>e. ParsePolynomial ''x^'' = Inl e \<and> kind e = FormatError"
    using parse_x_hat by simp
  ultimately show ?thesis
    using general unfolding cleaned_def ts_def by (simp add: Let_def)
qed

theorem ParsePolynomial_format_errors_witness:
  "(\<exists>e. ParsePolynomial ''abc'' = Inl e \<and> kind e = FormatError)
   \<and> (\<exists>e. ParsePolynomial ''^2'' = Inl e \<and> kind e = FormatError)
   \<and> (\<exists>e. ParsePolynomial ''3x^ + 1'' = Inl e \<and> kind e = FormatError)
   \<and> (\<exists>e. ParsePolynomial ''x^99999999999999999999'' = Inl e \<and> kind e = FormatError)"
proof -
  have a: "FindAllString termRegex False ''abc'' = []"
    by (simp add: regex_eval)
  have b: "FindAllString termRegex False ''^2'' = [''2'']"
    by (simp add: regex_eval)
  have c: "FindAllString termRegex False ''3x^+1'' = [''3x^'', ''+1'']"
    by (simp add: regex_eval)
  have d: "FindAllString termRegex False ''x^99999999999999999999''
        = [''x^99999999999999999999'']"
    by (simp add: regex_eval)
  have m: "malformed_exponent ''3x^''"
    by (simp add: malformed_exponent_def exponent_text_def Atoi_def split_sign_def)
  have n: "malformed_exponent ''x^99999999999999999999''"
    by (simp add: malformed_exponent_def exponent_text_def Atoi_def split_sign_def
        isDigit_def nat_of_digits_def digit_val_def)
  show ?thesis
    using ParsePolynomial_format_errors [of "''abc''"] ParsePolynomial_format_errors [of "''^2''"]
      ParsePolynomial_format_errors [of "''3x^ + 1''"]
      ParsePolynomial_format_errors [of "''x^99999999999999999999''"]
    by (simp add: ReplaceAll_def a b c d m n)
qed

text \<open>
  C5 as stated has every malformed exponent fail, and an exponent that is not an integer
  is one. The pattern cuts \<open>x^1.5\<close> into the terms \<open>x^1\<close> and \<open>.5\<close>, which put together
  again are the input, and \<open>ParsePolynomial\<close> returns the coefficients of \<open>x + 0.5\<close>.
\<close>

theorem ParsePolynomial_fraction_exponent_counterexample:
  "malformed_exponent ''x^1.5'' \<and> ParsePolynomial ''x^1.5'' = Inr [1 / 2, 1]"
proof -
  have "malformed_exponent ''x^1.5''"
    by (simp add: malformed_exponent_def exponent_text_def Atoi_def split_sign_def isDigit_def)
  then show ?thesis using parse_fraction_exponent by blast
qed

text \<open>
  C4. When \<open>ParsePolynomial\<close> returns a coefficient vector, its length is the degree plus
  one, the degree being the largest degree of a term (the exponent of \<open>x^k\<close>, 1 for the
  bare variable, 0 for a number); and the slot \<open>k\<close> holds the sum of the coefficients of
  the terms of degree \<open>k\<close>, where a variable with no magnitude before it counts 1, or -1
  after a minus sign. The five inputs of the claim parse to \<open>[5]\<close>, \<open>[0, -1]\<close>,
  \<open>[1, 2]\<close>, \<open>[6, -5, 1]\<close> and \<open>[0, 3]\<close>.
\<close>

theorem ParsePolynomial_coefficients:
  "(ParsePolynomial str = Inr cs \<longrightarrow>
      (let ts = FindAllString termRegex False (ReplaceAll str CHR '' '' []) in
       length cs = Max (insert 0 (term_power ` set ts)) + 1 \<and>
       (\<forall>k<length cs. cs ! k = (\<Sum>t\<leftarrow>filter (\<lambda>t. term_power t = k) ts. term_coefficient t))))
   \<and> (CHR ''x'' \<in> set t \<and> (magnitude_text t = [] \<or> magnitude_text t = ''+'') \<longrightarrow>
        term_coefficient t = 1)
   \<and> (CHR ''x'' \<in> set t \<and> magnitude_text t = ''-'' \<longrightarrow> term_coefficient t = - 1)
   \<and> ParsePolynomial ''5'' = Inr [5]
   \<and> ParsePolynomial ''-x'' = Inr [0, - 1]
   \<and> ParsePolynomial ''2x+1'' = Inr [1, 2]
   \<and> ParsePolynomial ''x^2 - 5x + 6'' = Inr [6, - 5, 1]
   \<and> ParsePolynomial ''x + 2x'' = Inr [0, 3]"
  using ParsePolynomial_coefficients_general [of str cs]
    parse_5 parse_minus_x parse_2x_1 parse_quadratic parse_x_2x
  by (simp add: Let_def term_coefficient_def)

theorem ParsePolynomial_coefficients_witness:
  "ParsePolynomial ''3x^2+x-x^2+4'' = Inr [4, 1, 2]
   \<and> length [4, 1, 2 :: real]
       = Max (insert 0 (term_power ` set [''3x^2'', ''+x'', ''-x^2'', ''+4''])) + 1
   \<and> [4, 1, 2 :: real] ! 2
       = (\<Sum>t\<leftarrow>filter (\<lambda>t. term_power t = 2) [''3x^2'', ''+x'', ''-x^2'', ''+4''].
            term_coefficient t)
   \<and> term_coefficient ''+x'' = 1 \<and> term_coefficient ''-x^2'' = - 1"
proof -
  have ts: "FindAllString termRegex False (ReplaceAll ''3x^2+x-x^2+4'' CHR '' '' [])
        = [''3x^2'', ''+x'', ''-x^2'', ''+4'']"
    by (simp add: ReplaceAll_def regex_eval)
  have p: "ParsePolynomial ''3x^2+x-x^2+4'' = Inr [4, 1, 2]"
  proof (rule ParsePolynomial_steps [OF ts])
    show "maxDegree_loop [''3x^2'', ''+x'', ''-x^2'', ''+4''] 0 = Inr 2"
      by (simp add: string_eval Atoi_def)
    show "make_float64 (int64_add 2 1) = Inr [0, 0, 0]"
      by (rule make_float64_small)
    have "ParseFloat ''3'' = Some 3" "ParseFloat ''+4'' = Some 4"
      by (simp_all add: float_eval string_eval)
    then show "coefficients_loop [''3x^2'', ''+x'', ''-x^2'', ''+4''] [0, 0, 0] = Inr [4, 1, 2]"
      by (simp add: string_eval Atoi_def ParseFloat_one add_at_def)
  qed (simp_all add: ReplaceAll_def)
  have m: "magnitude_text ''+x'' = ''+''" "magnitude_text ''-x^2'' = ''-''"
    by (simp_all add: magnitude_text_def)
  have all: "length [4, 1, 2 :: real]
       = Max (insert 0 (term_power ` set [''3x^2'', ''+x'', ''-x^2'', ''+4''])) + 1
     \<and> (\<forall>k<length [4, 1, 2 :: real]. [4, 1, 2 :: real] ! k
       = (\<Sum>t\<leftarrow>filter (\<lambda>t. term_power t = k) [''3x^2'', ''+x'', ''-x^2'', ''+4''].
            term_coefficient t))"
    using ParsePolynomial_coefficients [of "''3x^2+x-x^2+4''" "[4, 1, 2]" "''+x''"] p
    unfolding ts Let_def by blast
  then have l: "length [4, 1, 2 :: real]
       = Max (insert 0 (term_power ` set [''3x^2'', ''+x'', ''-x^2'', ''+4''])) + 1"
    by blast
  have "2 < length [4, 1, 2 :: real]" by simp
  with all have k2: "[4, 1, 2 :: real] ! 2
       = (\<Sum>t\<leftarrow>filter (\<lambda>t. term_power t = 2) [''3x^2'', ''+x'', ''-x^2'', ''+4''].
            term_coefficient t)"
    by blast
  have c1: "term_coefficient ''+x'' = 1"
    using ParsePolynomial_coefficients [of "''3x^2+x-x^2+4''" "[4, 1, 2]" "''+x''"] m by simp
  have c2: "term_coefficient ''-x^2'' = - 1"
    using ParsePolynomial_coefficients [of "''3x^2+x-x^2+4''" "[4, 1, 2]" "''-x^2''"] m by simp
  show ?thesis using p l k2 c1 c2 by blast
qed

section \<open>Properties of the interpolator\<close>

subsection \<open>The system the loops build\<close>

lemma fill_row_prefix:
  assumes "i < length v" and "k \<le> length (v ! i)"
  shows "fold (\<lambda>j v. Dense_Set v i j (f j)) [0..<k] v
         = v[i := map f [0..<k] @ drop k (v ! i)]"
  using assms(2)
proof (induction k)
  case 0
  then show ?case by simp
next
  case (Suc k)
  then have k: "k < length (v ! i)" by simp
  have "fold (\<lambda>j v. Dense_Set v i j (f j)) [0..<Suc k] v
        = Dense_Set (v[i := map f [0..<k] @ drop k (v ! i)]) i k (f k)"
    using Suc by simp
  also have "\<dots> = v[i := (map f [0..<k] @ drop k (v ! i))[k := f k]]"
    using assms(1) by (simp add: Dense_Set_def)
  also have "(map f [0..<k] @ drop k (v ! i))[k := f k] = map f [0..<k] @ (drop k (v ! i))[0 := f k]"
    by (simp add: list_update_append)
  also have "(drop k (v ! i))[0 := f k] = f k # drop (Suc k) (v ! i)"
    using k by (simp add: Cons_nth_drop_Suc [symmetric])
  finally show ?case by simp
qed

lemma fill_row_all:
  assumes "i < length v" and "length (v ! i) = n"
  shows "fill_row points n i v = v[i := map (\<lambda>j. fst (points ! i) ^ j) [0..<n]]"
  using fill_row_prefix [OF assms(1), of n "\<lambda>j. math_Pow (fst (points ! i)) j"] assms(2)
  by (simp add: fill_row_def math_Pow_def)

lemma fill_system_prefix:
  "k \<le> n \<Longrightarrow>
   fold (\<lambda>i (v, b). (fill_row points n i v, b[i := snd (points ! i)])) [0..<k]
     (replicate n (replicate n 0), replicate n 0)
   = (map (\<lambda>i. map (\<lambda>j. fst (points ! i) ^ j) [0..<n]) [0..<k] @ replicate (n - k) (replicate n 0),
      map (\<lambda>i. snd (points ! i)) [0..<k] @ replicate (n - k) 0)"
proof (induction k)
  case 0
  then show ?case by simp
next
  case (Suc k)
  let ?rows = "map (\<lambda>i. map (\<lambda>j. fst (points ! i) ^ j) [0..<n]) [0..<k]"
  let ?v = "?rows @ replicate (n - k) (replicate n (0::real))"
  let ?b = "map (\<lambda>i. snd (points ! i)) [0..<k] @ replicate (n - k) (0::real)"
  have k: "k < n" using Suc.prems by simp
  then have nk: "n - k = Suc (n - Suc k)" by simp
  have vi: "k < length ?v" "length (?v ! k) = n"
    using k by (simp_all add: nth_append)
  have row: "fill_row points n k ?v = ?v[k := map (\<lambda>j. fst (points ! k) ^ j) [0..<n]]"
    by (rule fill_row_all [OF vi])
  also have "\<dots> = ?rows @ (replicate (n - k) (replicate n 0))[0 := map (\<lambda>j. fst (points ! k) ^ j) [0..<n]]"
    by (simp add: list_update_append)
  also have "\<dots> = map (\<lambda>i. map (\<lambda>j. fst (points ! i) ^ j) [0..<n]) [0..<Suc k]
        @ replicate (n - Suc k) (replicate n 0)"
    by (simp add: nk)
  finally have v: "fill_row points n k ?v
      = map (\<lambda>i. map (\<lambda>j. fst (points ! i) ^ j) [0..<n]) [0..<Suc k]
        @ replicate (n - Suc k) (replicate n 0)" .
  have "?b[k := snd (points ! k)]
      = map (\<lambda>i. snd (points ! i)) [0..<k] @ (replicate (n - k) 0)[0 := snd (points ! k)]"
    by (simp add: list_update_append)
  also have "\<dots> = map (\<lambda>i. snd (points ! i)) [0..<Suc k] @ replicate (n - Suc k) 0"
    by (simp add: nk)
  finally have b: "?b[k := snd (points ! k)]
      = map (\<lambda>i. snd (points ! i)) [0..<Suc k] @ replicate (n - Suc k) 0" .
  have "fold (\<lambda>i (v, b). (fill_row points n i v, b[i := snd (points ! i)])) [0..<Suc k]
     (replicate n (replicate n 0), replicate n 0)
     = (fill_row points n k ?v, ?b[k := snd (points ! k)])"
    using Suc by simp
  then show ?case
    by (simp only: v b)
qed

lemma fill_system_vandermonde:
  "fill_system points (length points) = (vandermonde points, rhs points)"
proof -
  have "map (\<lambda>i. snd (points ! i)) [0..<length points] = map snd points"
    by (rule nth_equalityI) simp_all
  then show ?thesis
    using fill_system_prefix [of "length points" "length points" points]
    by (simp add: fill_system_def vandermonde_def rhs_def)
qed

lemma Interpolate_solver:
  assumes "points \<noteq> []"
  shows "Interpolate SolveVec points =
     (case SolveVec (vandermonde points) (rhs points) of
        Inl err \<Rightarrow> Inl (SolveFailed err)
      | Inr c \<Rightarrow> if length c < length points then Inl PanicIndex
                 else Inr (take (length points) c))"
proof -
  have "map (\<lambda>i. c ! i) [0..<length points] = take (length points) c"
    if "\<not> length c < length points" for c :: "real list"
    using that by (intro nth_equalityI) simp_all
  then show ?thesis
    using assms by (simp add: Interpolate_def fill_system_vandermonde split: sum.splits)
qed

subsection \<open>Solutions of a Vandermonde system\<close>

lemma sum_horner: "(\<Sum>j<length c. c ! j * x ^ j) = horner c x"
proof (induction c)
  case Nil
  then show ?case by simp
next
  case (Cons a c)
  have "(\<Sum>j<length (a # c). (a # c) ! j * x ^ j) = a + (\<Sum>j<length c. c ! j * x ^ Suc j)"
    by (simp del: sum.lessThan_Suc add: sum.lessThan_Suc_shift)
  also have "(\<Sum>j<length c. c ! j * x ^ Suc j) = x * (\<Sum>j<length c. c ! j * x ^ j)"
    by (simp add: sum_distrib_left mult.left_commute)
  finally show ?case using Cons.IH by simp
qed

lemma horner_mul_lin: "horner (mul_lin a p q) x = p + (x - a) * horner q x"
proof (induction q arbitrary: p)
  case Nil
  then show ?case by simp
next
  case (Cons c q)
  have ih: "horner (mul_lin a c q) x = c + (x - a) * horner q x"
    by (rule Cons.IH)
  show ?case by (simp add: ih algebra_simps)
qed

lemma length_mul_lin [simp]: "length (mul_lin a p q) = Suc (length q)"
  by (induction q arbitrary: p) simp_all

lemma mul_lin_nonempty [simp]: "mul_lin a p q \<noteq> []"
  by (cases q) simp_all

lemma last_mul_lin: "last (mul_lin a p q) = last (p # q)"
  by (induction q arbitrary: p) simp_all

lemma length_node_poly [simp]: "length (node_poly xs) = Suc (length xs)"
  by (induction xs) (simp_all add: node_poly_def)

lemma last_node_poly: "last (node_poly xs) = 1"
proof (induction xs)
  case Nil
  then show ?case by (simp add: node_poly_def)
next
  case (Cons a xs)
  have ne: "node_poly xs \<noteq> []"
    using length_node_poly [of xs] by (cases "node_poly xs") simp_all
  have "last (node_poly (a # xs)) = last (0 # node_poly xs)"
    by (simp add: node_poly_def last_mul_lin)
  then show ?case using Cons.IH ne by simp
qed

lemma horner_node_poly: "horner (node_poly xs) x = (\<Prod>a\<leftarrow>xs. x - a)"
  by (induction xs) (simp_all add: node_poly_def horner_mul_lin)

lemma horner_zeros: "horner (q @ replicate k 0) x = horner q x"
  by (induction q) (simp_all, induction k, simp_all)

lemma horner_add:
  "length c = length q \<Longrightarrow> horner (map2 (+) c q) x = horner c x + horner q x"
proof (induction c arbitrary: q)
  case Nil
  then show ?case by simp
next
  case (Cons a c)
  then obtain b q' where "q = b # q'" by (cases q) simp_all
  then show ?case using Cons by (simp add: algebra_simps)
qed

lemma solves_vandermonde:
  "solves (vandermonde points) (rhs points) c \<longleftrightarrow>
     length c = length points \<and>
     (\<forall>i<length points. horner c (fst (points ! i)) = snd (points ! i))"
proof (cases "length c = length points")
  case False
  then show ?thesis by (simp add: solves_def rhs_def)
next
  case True
  have row: "(\<Sum>j<length c. (vandermonde points ! i) ! j * c ! j) = horner c (fst (points ! i))"
    if "i < length points" for i
  proof -
    have "(\<Sum>j<length c. (vandermonde points ! i) ! j * c ! j)
          = (\<Sum>j<length c. c ! j * fst (points ! i) ^ j)"
      using that True by (intro sum.cong) (simp_all add: vandermonde_def mult.commute)
    then show ?thesis by (simp add: sum_horner)
  qed
  have "map (\<lambda>row. \<Sum>j<length c. row ! j * c ! j) (vandermonde points) = rhs points
        \<longleftrightarrow> (\<forall>i<length points. horner c (fst (points ! i)) = snd (points ! i))"
  proof
    assume eq: "map (\<lambda>row. \<Sum>j<length c. row ! j * c ! j) (vandermonde points) = rhs points"
    show "\<forall>i<length points. horner c (fst (points ! i)) = snd (points ! i)"
    proof (intro allI impI)
      fix i assume i: "i < length points"
      have "map (\<lambda>row. \<Sum>j<length c. row ! j * c ! j) (vandermonde points) ! i = rhs points ! i"
        using eq by simp
      then show "horner c (fst (points ! i)) = snd (points ! i)"
        using i row [OF i] by (simp add: vandermonde_def rhs_def)
    qed
  next
    assume all: "\<forall>i<length points. horner c (fst (points ! i)) = snd (points ! i)"
    show "map (\<lambda>row. \<Sum>j<length c. row ! j * c ! j) (vandermonde points) = rhs points"
    proof (rule nth_equalityI)
      show "length (map (\<lambda>row. \<Sum>j<length c. row ! j * c ! j) (vandermonde points))
            = length (rhs points)"
        by (simp add: vandermonde_def rhs_def)
    next
      fix i assume "i < length (map (\<lambda>row. \<Sum>j<length c. row ! j * c ! j) (vandermonde points))"
      then have i: "i < length points" by (simp add: vandermonde_def)
      then have "map (\<lambda>row. \<Sum>j<length c. row ! j * c ! j) (vandermonde points) ! i
            = (\<Sum>j<length c. (vandermonde points ! i) ! j * c ! j)"
        by (simp add: vandermonde_def)
      then show "map (\<lambda>row. \<Sum>j<length c. row ! j * c ! j) (vandermonde points) ! i
            = rhs points ! i"
        using row [OF i] all i by (simp add: rhs_def)
    qed
  qed
  then show ?thesis using True by (simp add: solves_def rhs_def)
qed

text \<open>With a repeated \<open>x\<close> the system never has exactly one solution.\<close>

lemma repeated_x_not_unique:
  assumes "\<not> distinct (map fst points)"
  shows "\<not> (\<exists>!c. solves (vandermonde points) (rhs points) c)"
proof
  assume "\<exists>!c. solves (vandermonde points) (rhs points) c"
  then obtain c where c: "solves (vandermonde points) (rhs points) c"
    and uniq: "\<And>c'. solves (vandermonde points) (rhs points) c' \<Longrightarrow> c' = c"
    by blast
  define n where "n = length points"
  define xs where "xs = remdups (map fst points)"
  define m where "m = length xs"
  have "length xs \<noteq> length (map fst points)"
    unfolding xs_def
    using assms length_remdups_eq [of "map fst points"]
      remdups_id_iff_distinct [of "map fst points"]
    by blast
  moreover have "length xs \<le> length (map fst points)"
    unfolding xs_def by (rule length_remdups_leq)
  ultimately have m: "m < n" by (simp add: m_def n_def)
  define q where "q = node_poly xs @ replicate (n - Suc m) 0"
  have lq: "length q = n" using m by (simp add: q_def m_def)
  have lc: "length c = n"
    and cs: "\<forall>i<n. horner c (fst (points ! i)) = snd (points ! i)"
    using c unfolding solves_vandermonde n_def by simp_all
  have qz: "horner q (fst (points ! i)) = 0" if "i < n" for i
  proof -
    have "fst (points ! i) \<in> set xs"
      using that unfolding xs_def n_def by simp
    then have "(0::real) \<in> set (map (\<lambda>a. fst (points ! i) - a) xs)"
      by force
    then have "(\<Prod>a\<leftarrow>xs. fst (points ! i) - a) = 0"
      by (simp only: prod_list_zero_iff)
    then show ?thesis
      by (simp add: q_def horner_zeros horner_node_poly)
  qed
  define c' where "c' = map2 (+) c q"
  have "length c' = n" by (simp add: c'_def lc lq)
  moreover have "\<forall>i<n. horner c' (fst (points ! i)) = snd (points ! i)"
    using cs qz by (simp add: c'_def horner_add lc lq)
  ultimately have "solves (vandermonde points) (rhs points) c'"
    unfolding solves_vandermonde n_def by simp
  then have "c' = c" by (rule uniq)
  moreover have "q ! m = 1"
  proof -
    have "q ! m = node_poly xs ! m"
      by (simp add: q_def nth_append m_def)
    also have "\<dots> = last (node_poly xs)"
      by (subst last_conv_nth) (simp_all add: m_def flip: length_greater_0_conv)
    finally show ?thesis by (simp add: last_node_poly)
  qed
  moreover have "c' ! m = c ! m + q ! m"
    using m by (simp add: c'_def lc lq)
  ultimately show False by simp
qed

subsection \<open>\<open>Interpolate\<close>\<close>

lemma line_system:
  "solves (vandermonde [(0, 1), (1, 3)]) (rhs [(0, 1), (1, 3)]) c \<longleftrightarrow> c = [1, 2]"
proof
  let ?pts = "[(0, 1), (1, 3)] :: (real \<times> real) list"
  assume "solves (vandermonde ?pts) (rhs ?pts) c"
  then have len: "length c = 2"
    and at: "\<And>i. i < length ?pts \<Longrightarrow> horner c (fst (?pts ! i)) = snd (?pts ! i)"
    unfolding solves_vandermonde by simp_all
  from len obtain a b where c: "c = [a, b]"
    by (cases c; cases "tl c") auto
  have "horner c 0 = 1" using at [of 0] by simp
  moreover have "horner c 1 = 3" using at [of 1] by simp
  ultimately show "c = [1, 2]" using c by simp
next
  assume "c = [1, 2]"
  then show "solves (vandermonde [(0, 1), (1, 3)]) (rhs [(0, 1), (1, 3)]) c"
    unfolding solves_vandermonde by (simp add: less_Suc_eq)
qed

lemma exact_on_Inr:
  assumes "exact_on SolveVec M b" and "SolveVec M b = Inr c"
  shows "solves M b c" and "\<And>c'. solves M b c' \<Longrightarrow> c' = c"
  using assms by (simp_all add: exact_on_def)

lemma exact_on_Inl:
  assumes "exact_on SolveVec M b" and "SolveVec M b = Inl msg"
  shows "\<not> (\<exists>!c. solves M b c)"
  using assms by (simp add: exact_on_def)

lemma exact_on_singular:
  assumes "exact_on SolveVec M b" and "\<not> (\<exists>!c. solves M b c)"
  shows "\<exists>msg. SolveVec M b = Inl msg"
proof (cases "SolveVec M b")
  case (Inl msg)
  then show ?thesis by blast
next
  case (Inr c)
  then have "solves M b c" and "\<And>c'. solves M b c' \<Longrightarrow> c' = c"
    using exact_on_Inr [OF assms(1)] by blast+
  then have "\<exists>!c. solves M b c" by blast
  with assms(2) show ?thesis by blast
qed

lemma Interpolate_Inl:
  assumes "points \<noteq> []" and "SolveVec (vandermonde points) (rhs points) = Inl msg"
  shows "\<exists>e. Interpolate SolveVec points = Inl e \<and> kind e = SingularSystemError"
  using assms by (simp add: Interpolate_solver)

lemma Interpolate_Inr:
  assumes "points \<noteq> []" and "SolveVec (vandermonde points) (rhs points) = Inr c"
    and "solves (vandermonde points) (rhs points) c"
  shows "Interpolate SolveVec points = Inr c" and "length c = length points"
proof -
  show len: "length c = length points"
    using assms(3) by (simp add: solves_def rhs_def)
  then show "Interpolate SolveVec points = Inr c"
    using assms(1,2) by (simp add: Interpolate_solver)
qed

text \<open>
  C8. \<open>Interpolate\<close> fails with the empty-input error on no points. On \<open>n \<ge> 1\<close> points it
  builds the \<open>n \<times> n\<close> matrix \<open>M[i][j] = x\<^sub>i\<^sup>j\<close> and the right-hand side \<open>b[i] = y\<^sub>i\<close>
  and hands them to the solver; an error of the solver comes back as the singular-system
  error. With a solver that is exact on this system, the result is the vector \<open>c\<close> of
  length \<open>n\<close> with \<open>M \<sqdot> c = b\<close>, and the call fails with the singular-system error when
  the system has not exactly one solution, as it has not when an \<open>x\<close> is repeated.
  On \<open>[(0,1), (1,3)]\<close> the result is \<open>[1, 2]\<close>.
\<close>

theorem Interpolate_vandermonde:
  "(length points = 0 \<longrightarrow>
      (\<exists>e. Interpolate SolveVec points = Inl e \<and> kind e = EmptyInputError))
   \<and> (0 < length points \<longrightarrow>
        fill_system points (length points) = (vandermonde points, rhs points)
        \<and> (\<forall>i<length points. \<forall>j<length points.
              vandermonde points ! i ! j = fst (points ! i) ^ j \<and>
              rhs points ! i = snd (points ! i))
        \<and> (\<forall>msg. SolveVec (vandermonde points) (rhs points) = Inl msg \<longrightarrow>
              (\<exists>e. Interpolate SolveVec points = Inl e \<and> kind e = SingularSystemError))
        \<and> (exact_on SolveVec (vandermonde points) (rhs points) \<longrightarrow>
              (\<forall>c. SolveVec (vandermonde points) (rhs points) = Inr c \<longrightarrow>
                 Interpolate SolveVec points = Inr c \<and> length c = length points \<and>
                 solves (vandermonde points) (rhs points) c)
              \<and> (\<not> (\<exists>!c. solves (vandermonde points) (rhs points) c) \<longrightarrow>
                 (\<exists>e. Interpolate SolveVec points = Inl e \<and> kind e = SingularSystemError))
              \<and> (\<not> distinct (map fst points) \<longrightarrow>
                 (\<exists>e. Interpolate SolveVec points = Inl e \<and> kind e = SingularSystemError))))
   \<and> (exact_on SolveVec (vandermonde [(0, 1), (1, 3)]) (rhs [(0, 1), (1, 3)]) \<longrightarrow>
        Interpolate SolveVec [(0, 1), (1, 3)] = Inr [1, 2])"
proof (intro conjI impI allI)
  assume "length points = 0"
  then show "\<exists>e. Interpolate SolveVec points = Inl e \<and> kind e = EmptyInputError"
    by (simp add: Interpolate_def)
next
  show "fill_system points (length points) = (vandermonde points, rhs points)"
    by (rule fill_system_vandermonde)
next
  fix i j assume "i < length points" "j < length points"
  then show "vandermonde points ! i ! j = fst (points ! i) ^ j"
    by (simp add: vandermonde_def)
next
  fix i assume "i < length points"
  then show "rhs points ! i = snd (points ! i)"
    by (simp add: rhs_def)
next
  fix msg
  assume "0 < length points" and "SolveVec (vandermonde points) (rhs points) = Inl msg"
  then show "\<exists>e. Interpolate SolveVec points = Inl e \<and> kind e = SingularSystemError"
    using Interpolate_Inl [of points SolveVec msg] by simp
next
  fix c
  assume ne: "0 < length points"
    and ex: "exact_on SolveVec (vandermonde points) (rhs points)"
    and r: "SolveVec (vandermonde points) (rhs points) = Inr c"
  have s: "solves (vandermonde points) (rhs points) c"
    using exact_on_Inr(1) [OF ex r] .
  show "Interpolate SolveVec points = Inr c" "length c = length points"
    using Interpolate_Inr [of points SolveVec c] ne r s by simp_all
  show "solves (vandermonde points) (rhs points) c" by (rule s)
next
  assume ne: "0 < length points"
    and ex: "exact_on SolveVec (vandermonde points) (rhs points)"
    and "\<not> (\<exists>!c. solves (vandermonde points) (rhs points) c)"
  then obtain msg where "SolveVec (vandermonde points) (rhs points) = Inl msg"
    using exact_on_singular by blast
  then show "\<exists>e. Interpolate SolveVec points = Inl e \<and> kind e = SingularSystemError"
    using Interpolate_Inl [of points SolveVec msg] ne by simp
next
  assume ne: "0 < length points"
    and ex: "exact_on SolveVec (vandermonde points) (rhs points)"
    and "\<not> distinct (map fst points)"
  then have "\<not> (\<exists>!c. solves (vandermonde points) (rhs points) c)"
    using repeated_x_not_unique by blast
  then obtain msg where "SolveVec (vandermonde points) (rhs points) = Inl msg"
    using exact_on_singular [OF ex] by blast
  then show "\<exists>e. Interpolate SolveVec points = Inl e \<and> kind e = SingularSystemError"
    using Interpolate_Inl [of points SolveVec msg] ne by simp
next
  let ?pts = "[(0, 1), (1, 3)] :: (real \<times> real) list"
  assume ex: "exact_on SolveVec (vandermonde ?pts) (rhs ?pts)"
  have "\<exists>!c. solves (vandermonde ?pts) (rhs ?pts) c"
    unfolding line_system by simp
  then obtain c where r: "SolveVec (vandermonde ?pts) (rhs ?pts) = Inr c"
    using exact_on_Inl [OF ex] by (cases "SolveVec (vandermonde ?pts) (rhs ?pts)") blast+
  have s: "solves (vandermonde ?pts) (rhs ?pts) c"
    using exact_on_Inr(1) [OF ex r] .
  then have "c = [1, 2]" unfolding line_system .
  then show "Interpolate SolveVec ?pts = Inr [1, 2]"
    using Interpolate_Inr(1) [of ?pts SolveVec c] r s by simp
qed

theorem Interpolate_vandermonde_witness:
  "(\<exists>e. Interpolate (\<lambda>M b. Inr []) [] = Inl e \<and> kind e = EmptyInputError)
   \<and> Interpolate (\<lambda>M b. Inr [1, 2]) [(0, 1), (1, 3)] = Inr [1, 2]
   \<and> (\<exists>e. Interpolate (\<lambda>M b. Inl ''singular'') [(1, 2), (1, 2)] = Inl e
          \<and> kind e = SingularSystemError)"
proof -
  let ?line = "[(0, 1), (1, 3)] :: (real \<times> real) list"
  let ?twice = "[(1, 2), (1, 2)] :: (real \<times> real) list"
  have a: "\<exists>e. Interpolate (\<lambda>M b. Inr []) [] = Inl e \<and> kind e = EmptyInputError"
    using Interpolate_vandermonde [of "[]" "\<lambda>M b. Inr []"] by simp
  have "exact_on (\<lambda>M b. Inr [1, 2]) (vandermonde ?line) (rhs ?line)"
    by (simp add: exact_on_def line_system)
  then have b: "Interpolate (\<lambda>M b. Inr [1, 2]) ?line = Inr [1, 2]"
    using Interpolate_vandermonde [of ?line "\<lambda>M b. Inr [1, 2]"] by blast
  have "\<not> (\<exists>!c. solves (vandermonde ?twice) (rhs ?twice) c)"
    by (rule repeated_x_not_unique) simp
  then have "exact_on (\<lambda>M b. Inl ''singular'') (vandermonde ?twice) (rhs ?twice)"
    by (simp add: exact_on_def)
  moreover have "0 < length ?twice" "\<not> distinct (map fst ?twice)" by simp_all
  ultimately have c: "\<exists>e. Interpolate (\<lambda>M b. Inl ''singular'') ?twice = Inl e
      \<and> kind e = SingularSystemError"
    using Interpolate_vandermonde [of ?twice "\<lambda>M b. Inl ''singular''"] by blast
  show ?thesis using a b c by blast
qed

end
